theory Spec2Isabelle
  imports Main "HOL-Library.Word" "HOL-Library.Signed_Division"
begin

unbundle bit_operations_syntax

section \<open>Data model of \<^verbatim>\<open>cpu.c\<close>\<close>

text \<open>
  \<^verbatim>\<open>int32_t\<close> values are 32-bit words: \<open>+\<close>, \<open>-\<close> and \<open>*\<close> wrap around (two's
  complement; C leaves signed overflow undefined), comparisons of \<^verbatim>\<open>int32_t\<close> are the
  signed ones (\<open><s\<close>, \<open>\<le>s\<close>), and an array index is the signed reading \<open>sint\<close> of the
  word.
\<close>

type_synonym int32 = "32 word"
type_synonym byte = "8 word"

text \<open>The enumerations of \<^verbatim>\<open>cpu.h\<close>, with the names \<^verbatim>\<open>cpu.c\<close> uses.\<close>

datatype cpu_status =
    CPU_OK
  | CPU_HALTED
  | CPU_ILLEGAL_INSTRUCTION
  | CPU_ILLEGAL_OPERAND
  | CPU_DIV_BY_ZERO
  | CPU_INVALID_ADDRESS
  | CPU_INVALID_STACK_OPERATION
  | CPU_IO_ERROR

datatype cpu_register = REGISTER_A | REGISTER_B | REGISTER_C | REGISTER_D | REGISTER_RESULT

text \<open>
  \<^verbatim>\<open>struct cpu\<close>. The buffer behind the pointer \<^verbatim>\<open>memory\<close> is the list \<open>memory\<close>; the
  pointer \<^verbatim>\<open>stack_bottom\<close> is the index of the word it points to. \<^verbatim>\<open>registers[5]\<close> is a
  function on the five register names. The two last fields are not part of the struct:
  they are the standard input that is still unread and the standard output written
  so far, which \<^verbatim>\<open>IN\<close>, \<^verbatim>\<open>GET\<close>, \<^verbatim>\<open>OUT\<close> and \<^verbatim>\<open>PUT\<close> use.
\<close>

record cpu =
  memory :: "int32 list"
  stack_bottom :: nat
  stack_capacity :: nat
  status :: cpu_status
  inst_index :: int32
  stack_size :: int32
  registers :: "cpu_register \<Rightarrow> int32"
  end_of_stack :: int32
  memory_size :: nat
  console_in :: "byte list"
  console_out :: "byte list"

text \<open>
  An access outside the buffer is undefined behaviour in C; the model makes it the
  value \<open>None\<close>, and every function that reads or writes memory returns an option.
\<close>

definition mem_read :: "int32 list \<Rightarrow> int \<Rightarrow> int32 option" where
  "mem_read m i = (if 0 \<le> i \<and> i < int (length m) then Some (m ! nat i) else None)"

definition mem_write :: "int32 list \<Rightarrow> int \<Rightarrow> int32 \<Rightarrow> int32 list option" where
  "mem_write m i v = (if 0 \<le> i \<and> i < int (length m) then Some (m[nat i := v]) else None)"

text \<open>\<^verbatim>\<open>cpu->stack_bottom[k]\<close> for an \<^verbatim>\<open>int\<close> offset \<open>k\<close> (the handlers pass negated values).\<close>

definition stack_addr :: "cpu \<Rightarrow> int32 \<Rightarrow> int" where
  "stack_addr c k = int (stack_bottom c) + sint k"

text \<open>The register named by a validated index (0 to 4).\<close>

definition reg_of :: "int32 \<Rightarrow> cpu_register" where
  "reg_of r = (if r = 0 then REGISTER_A else if r = 1 then REGISTER_B
               else if r = 2 then REGISTER_C else if r = 3 then REGISTER_D
               else REGISTER_RESULT)"

definition cpu_set_register :: "cpu \<Rightarrow> cpu_register \<Rightarrow> int32 \<Rightarrow> cpu" where
  "cpu_set_register c reg v = c\<lparr>registers := (registers c)(reg := v)\<rparr>"

definition cpu_get_register :: "cpu \<Rightarrow> cpu_register \<Rightarrow> int32" where
  "cpu_get_register c reg = registers c reg"

definition cpu_get_stack_size :: "cpu \<Rightarrow> int32" where
  "cpu_get_stack_size c = stack_size c"

definition cpu_get_status :: "cpu \<Rightarrow> cpu_status" where
  "cpu_get_status c = status c"

text \<open>\<^verbatim>\<open>is_valid_reg\<close>: the flag it returns, and the machine with the status it may set.\<close>

definition is_valid_reg :: "cpu \<Rightarrow> int32 \<Rightarrow> bool \<times> cpu" where
  "is_valid_reg c reg =
     (if reg <s 0 \<or> 4 <s reg then (False, c\<lparr>status := CPU_ILLEGAL_OPERAND\<rparr>) else (True, c))"

text \<open>
  C's \<^verbatim>\<open>/\<close> on \<^verbatim>\<open>int32_t\<close>: the quotient truncated towards zero (\<open>sdiv\<close> on the
  integers). Two divisions are undefined in C and make the processor's division
  instruction trap, which ends the process: a division by zero, and \<open>- 2 ^ 31\<close> divided
  by \<open>- 1\<close>, whose quotient \<open>2 ^ 31\<close> does not fit an \<^verbatim>\<open>int32_t\<close>. Both are \<open>None\<close>, like an
  access outside the buffer.
\<close>

definition div32 :: "int32 \<Rightarrow> int32 \<Rightarrow> int32 option" where
  "div32 a b =
     (if b = 0 \<or> (sint a = - (2 ^ 31) \<and> sint b = - 1) then None
      else Some (word_of_int (sint a sdiv sint b)))"

section \<open>Creation and reset\<close>

text \<open>
  \<^verbatim>\<open>cpu_create\<close>, from the buffer, the index \<open>sb\<close> of the word \<^verbatim>\<open>stack_bottom\<close> points
  to and the capacity; \<open>inp\<close> is the standard input of the process. The difference of
  pointers is stored in an \<^verbatim>\<open>int32_t\<close>. The allocation of the struct is not modelled.
\<close>

definition cpu_create :: "int32 list \<Rightarrow> nat \<Rightarrow> nat \<Rightarrow> byte list \<Rightarrow> cpu" where
  "cpu_create mem sb cap inp =
     \<lparr> memory = mem, stack_bottom = sb, stack_capacity = cap, status = CPU_OK,
       inst_index = 0, stack_size = 0, registers = (\<lambda>_. 0),
       end_of_stack = word_of_int (int sb - int cap),
       memory_size = sb * 4 + 4, console_in = inp, console_out = [] \<rparr>"

text \<open>
  \<^verbatim>\<open>memset(p, 0, n * sizeof(int32_t))\<close> on the words \<open>from, \<dots>, from + n - 1\<close> of a
  buffer; outside the buffer it is undefined (\<open>None\<close>).
\<close>

definition zero_words :: "int32 list \<Rightarrow> int \<Rightarrow> nat \<Rightarrow> int32 list option" where
  "zero_words m from n =
     (if n = 0 then Some m
      else if 0 \<le> from \<and> from + int n \<le> int (length m)
      then Some (take (nat from) m @ replicate n 0 @ drop (nat from + n) m)
      else None)"

text \<open>
  \<^verbatim>\<open>cpu_reset\<close>: the \<^verbatim>\<open>memset\<close> starts at \<^verbatim>\<open>stack_bottom - stack_capacity\<close> and covers
  \<^verbatim>\<open>stack_capacity\<close> words.
\<close>

definition cpu_reset :: "cpu \<Rightarrow> cpu option" where
  "cpu_reset c =
     (case zero_words (memory c) (int (stack_bottom c) - int (stack_capacity c)) (stack_capacity c) of
        None \<Rightarrow> None
      | Some m \<Rightarrow> Some (c\<lparr>registers := (\<lambda>_. 0), stack_size := 0, status := CPU_OK, memory := m\<rparr>))"

section \<open>The standard streams\<close>

text \<open>
  \<^verbatim>\<open>scanf("%d", &input)\<close> belongs to the C library. The model takes it as a parameter:
  from the unread input it gives the converted integer, or \<open>None\<close> when the call does
  not return 1, and the input left unread. Every result below holds for any such
  function.
\<close>

type_synonym scanf_d = "byte list \<Rightarrow> int32 option \<times> byte list"

text \<open>\<^verbatim>\<open>printf("%d", v)\<close>: the decimal digits, after a minus sign for a negative value.\<close>

fun dec_digits :: "nat \<Rightarrow> byte list" where
  "dec_digits n =
     (if n < 10 then [of_nat (48 + n)] else dec_digits (n div 10) @ [of_nat (48 + n mod 10)])"

declare dec_digits.simps [simp del]

definition print_int :: "int \<Rightarrow> byte list" where
  "print_int i = (if i < 0 then 45 # dec_digits (nat (- i)) else dec_digits (nat i))"

section \<open>The instruction handlers\<close>

text \<open>
  A handler returns the \<^verbatim>\<open>int\<close> of the C function (1 for success, 0 for failure) and
  the machine it leaves, or \<open>None\<close> when it reads or writes outside the buffer or
  divides with an undefined result.
  \<open>operand c k\<close> is \<^verbatim>\<open>cpu->memory[cpu->inst_index + k]\<close> and \<open>advance c k\<close> is
  \<^verbatim>\<open>cpu->inst_index += k\<close>.
\<close>

definition operand :: "cpu \<Rightarrow> int32 \<Rightarrow> int32 option" where
  "operand c k = mem_read (memory c) (sint (inst_index c + k))"

definition advance :: "cpu \<Rightarrow> int32 \<Rightarrow> cpu" where
  "advance c k = c\<lparr>inst_index := inst_index c + k\<rparr>"

definition execute_nop :: "cpu \<Rightarrow> (int \<times> cpu) option" where
  "execute_nop c = Some (1, c\<lparr>status := CPU_OK\<rparr>)"

definition execute_halt :: "cpu \<Rightarrow> (int \<times> cpu) option" where
  "execute_halt c = Some (0, c\<lparr>status := CPU_HALTED\<rparr>)"

definition execute_add :: "cpu \<Rightarrow> (int \<times> cpu) option" where
  "execute_add c =
     (case operand c 1 of
        None \<Rightarrow> None
      | Some reg_to_add \<Rightarrow>
          (let (ok, c1) = is_valid_reg (advance c 1) reg_to_add in
           if \<not> ok then Some (0, c1)
           else
             let c2 = cpu_set_register c1 REGISTER_A
                        (registers c1 REGISTER_A + registers c1 (reg_of reg_to_add));
                 c3 = cpu_set_register c2 REGISTER_RESULT (registers c2 REGISTER_A)
             in Some (1, c3\<lparr>status := CPU_OK\<rparr>)))"

definition execute_sub :: "cpu \<Rightarrow> (int \<times> cpu) option" where
  "execute_sub c =
     (case operand c 1 of
        None \<Rightarrow> None
      | Some reg_to_sub \<Rightarrow>
          (let (ok, c1) = is_valid_reg (advance c 1) reg_to_sub in
           if \<not> ok then Some (0, c1)
           else
             let c2 = cpu_set_register c1 REGISTER_A
                        (registers c1 REGISTER_A - registers c1 (reg_of reg_to_sub));
                 c3 = cpu_set_register c2 REGISTER_RESULT (registers c2 REGISTER_A)
             in Some (1, c3\<lparr>status := CPU_OK\<rparr>)))"

definition execute_mul :: "cpu \<Rightarrow> (int \<times> cpu) option" where
  "execute_mul c =
     (case operand c 1 of
        None \<Rightarrow> None
      | Some reg_to_mul \<Rightarrow>
          (let (ok, c1) = is_valid_reg (advance c 1) reg_to_mul in
           if \<not> ok then Some (0, c1)
           else
             let c2 = cpu_set_register c1 REGISTER_A
                        (registers c1 REGISTER_A * registers c1 (reg_of reg_to_mul));
                 c3 = cpu_set_register c2 REGISTER_RESULT (registers c2 REGISTER_A)
             in Some (1, c3\<lparr>status := CPU_OK\<rparr>)))"

definition execute_div :: "cpu \<Rightarrow> (int \<times> cpu) option" where
  "execute_div c =
     (case operand c 1 of
        None \<Rightarrow> None
      | Some reg_to_div \<Rightarrow>
          (let (ok, c1) = is_valid_reg (advance c 1) reg_to_div in
           if \<not> ok then Some (0, c1)
           else if registers c1 (reg_of reg_to_div) = 0
           then Some (0, c1\<lparr>status := CPU_DIV_BY_ZERO\<rparr>)
           else
             (case div32 (registers c1 REGISTER_A) (registers c1 (reg_of reg_to_div)) of
                None \<Rightarrow> None
              | Some q \<Rightarrow>
                  (let c2 = cpu_set_register c1 REGISTER_A q;
                       c3 = cpu_set_register c2 REGISTER_RESULT (registers c2 REGISTER_A)
                   in Some (1, c3\<lparr>status := CPU_OK\<rparr>)))))"

definition execute_inc :: "cpu \<Rightarrow> (int \<times> cpu) option" where
  "execute_inc c =
     (case operand c 1 of
        None \<Rightarrow> None
      | Some reg_input \<Rightarrow>
          (let (ok, c1) = is_valid_reg (advance c 1) reg_input in
           if \<not> ok then Some (0, c1)
           else
             let c2 = cpu_set_register c1 (reg_of reg_input) (registers c1 (reg_of reg_input) + 1);
                 c3 = cpu_set_register c2 REGISTER_RESULT (registers c2 (reg_of reg_input))
             in Some (1, c3\<lparr>status := CPU_OK\<rparr>)))"

definition execute_dec :: "cpu \<Rightarrow> (int \<times> cpu) option" where
  "execute_dec c =
     (case operand c 1 of
        None \<Rightarrow> None
      | Some reg_input \<Rightarrow>
          (let (ok, c1) = is_valid_reg (advance c 1) reg_input in
           if \<not> ok then Some (0, c1)
           else
             let c2 = cpu_set_register c1 (reg_of reg_input) (registers c1 (reg_of reg_input) - 1);
                 c3 = cpu_set_register c2 REGISTER_RESULT (registers c2 (reg_of reg_input))
             in Some (1, c3\<lparr>status := CPU_OK\<rparr>)))"

definition execute_loop :: "cpu \<Rightarrow> (int \<times> cpu) option" where
  "execute_loop c =
     (case operand c 1 of
        None \<Rightarrow> None
      | Some index_to_jump \<Rightarrow>
          (let c1 = advance c 1;
               c2 = (if registers c1 REGISTER_C \<noteq> 0 then c1\<lparr>inst_index := index_to_jump - 1\<rparr>
                     else c1)
           in Some (1, c2\<lparr>status := CPU_OK\<rparr>)))"

definition execute_movr :: "cpu \<Rightarrow> (int \<times> cpu) option" where
  "execute_movr c =
     (case operand c 1 of
        None \<Rightarrow> None
      | Some to_reg \<Rightarrow>
          (case operand c 2 of
             None \<Rightarrow> None
           | Some num \<Rightarrow>
               (let (ok, c1) = is_valid_reg (advance c 2) to_reg in
                if \<not> ok then Some (0, c1)
                else Some (1, (cpu_set_register c1 (reg_of to_reg) num)\<lparr>status := CPU_OK\<rparr>))))"

text \<open>\<^verbatim>\<open>execute_in\<close> validates the register before it advances, and sets no status on success.\<close>

definition execute_in :: "scanf_d \<Rightarrow> cpu \<Rightarrow> (int \<times> cpu) option" where
  "execute_in scanf c =
     (case operand c 1 of
        None \<Rightarrow> None
      | Some reg_to_add \<Rightarrow>
          (let (ok, c1) = is_valid_reg c reg_to_add in
           if \<not> ok then Some (0, c1)
           else
             let c2 = advance c1 1 in
             (case scanf (console_in c2) of
                (None, rest) \<Rightarrow> Some (0, c2\<lparr>console_in := rest, status := CPU_IO_ERROR\<rparr>)
              | (Some input, rest) \<Rightarrow>
                  Some (1, cpu_set_register (c2\<lparr>console_in := rest\<rparr>) (reg_of reg_to_add) input))))"

text \<open>\<^verbatim>\<open>getchar()\<close> gives the next byte, or \<^verbatim>\<open>EOF\<close> when the input is exhausted.\<close>

definition execute_get :: "cpu \<Rightarrow> (int \<times> cpu) option" where
  "execute_get c =
     (case operand c 1 of
        None \<Rightarrow> None
      | Some reg_to_input \<Rightarrow>
          (let (ok, c1) = is_valid_reg (advance c 1) reg_to_input in
           if \<not> ok then Some (0, c1)
           else
             (case console_in c1 of
                [] \<Rightarrow>
                  (let c2 = cpu_set_register c1 REGISTER_C 0;
                       c3 = cpu_set_register c2 (reg_of reg_to_input) (- 1)
                   in Some (1, c3\<lparr>status := CPU_OK\<rparr>))
              | input_value # rest \<Rightarrow>
                  (let c2 = cpu_set_register (c1\<lparr>console_in := rest\<rparr>) (reg_of reg_to_input)
                              (ucast input_value)
                   in Some (1, c2\<lparr>status := CPU_OK\<rparr>)))))"

definition execute_out :: "cpu \<Rightarrow> (int \<times> cpu) option" where
  "execute_out c =
     (case operand c 1 of
        None \<Rightarrow> None
      | Some reg_to_print \<Rightarrow>
          (let (ok, c1) = is_valid_reg (advance c 1) reg_to_print in
           if \<not> ok then Some (0, c1)
           else Some (1, c1\<lparr>console_out :=
                              console_out c1 @ print_int (sint (registers c1 (reg_of reg_to_print))),
                            status := CPU_OK\<rparr>)))"

definition execute_put :: "cpu \<Rightarrow> (int \<times> cpu) option" where
  "execute_put c =
     (case operand c 1 of
        None \<Rightarrow> None
      | Some reg_index \<Rightarrow>
          (let (ok, c1) = is_valid_reg (advance c 1) reg_index in
           if \<not> ok then Some (0, c1)
           else
             let reg_value = registers c1 (reg_of reg_index) in
             if reg_value <s 0 \<or> 255 <s reg_value
             then Some (0, c1\<lparr>status := CPU_ILLEGAL_OPERAND\<rparr>)
             else Some (1, c1\<lparr>console_out := console_out c1 @ [ucast reg_value],
                              status := CPU_OK\<rparr>)))"

definition execute_swap :: "cpu \<Rightarrow> (int \<times> cpu) option" where
  "execute_swap c =
     (case operand c 1 of
        None \<Rightarrow> None
      | Some reg_index_1 \<Rightarrow>
          (case operand c 2 of
             None \<Rightarrow> None
           | Some reg_index_2 \<Rightarrow>
               (let (ok1, c1) = is_valid_reg (advance c 2) reg_index_1 in
                if \<not> ok1 then Some (0, c1)
                else
                  let (ok2, c2) = is_valid_reg c1 reg_index_2 in
                  if \<not> ok2 then Some (0, c2)
                  else
                    let temp = registers c2 (reg_of reg_index_1);
                        c3 = cpu_set_register c2 (reg_of reg_index_1)
                               (registers c2 (reg_of reg_index_2));
                        c4 = cpu_set_register c3 (reg_of reg_index_2) temp
                    in Some (1, c4\<lparr>status := CPU_OK\<rparr>))))"

text \<open>
  \<^verbatim>\<open>LOAD\<close> and \<^verbatim>\<open>STORE\<close> address the stack from its top: \<^verbatim>\<open>stack_index\<close> is the slot,
  counted from the stack bottom, and the word is \<^verbatim>\<open>stack_bottom[-stack_index]\<close>.
\<close>

definition execute_load :: "cpu \<Rightarrow> (int \<times> cpu) option" where
  "execute_load c =
     (case operand c 1 of
        None \<Rightarrow> None
      | Some reg_index \<Rightarrow>
          (case operand c 2 of
             None \<Rightarrow> None
           | Some num \<Rightarrow>
               (let c0 = advance c 2;
                    end0 = cpu_get_stack_size c0;
                    stack_index = end0 - (registers c0 REGISTER_D + num) - 1;
                    (ok, c1) = is_valid_reg c0 reg_index
                in
                if \<not> ok then Some (0, c1)
                else if registers c1 REGISTER_D + num <s 0
                then Some (0, c1\<lparr>status := CPU_INVALID_STACK_OPERATION\<rparr>)
                else if end0 <s stack_index \<or> stack_index <s 0 \<or> end0 = 0
                then Some (0, c1\<lparr>status := CPU_INVALID_STACK_OPERATION\<rparr>)
                else
                  (case mem_read (memory c1) (stack_addr c1 (- stack_index)) of
                     None \<Rightarrow> None
                   | Some v \<Rightarrow>
                       Some (1, (cpu_set_register c1 (reg_of reg_index) v)\<lparr>status := CPU_OK\<rparr>)))))"

definition execute_store :: "cpu \<Rightarrow> (int \<times> cpu) option" where
  "execute_store c =
     (case operand c 1 of
        None \<Rightarrow> None
      | Some reg_index \<Rightarrow>
          (case operand c 2 of
             None \<Rightarrow> None
           | Some num \<Rightarrow>
               (let c0 = advance c 2;
                    end0 = cpu_get_stack_size c0;
                    stack_index = end0 - registers c0 REGISTER_D - num - 1;
                    (ok, c1) = is_valid_reg c0 reg_index
                in
                if \<not> ok then Some (0, c1)
                else if registers c1 REGISTER_D + num <s 0
                then Some (0, c1\<lparr>status := CPU_INVALID_STACK_OPERATION\<rparr>)
                else if end0 <s stack_index \<or> stack_index <s 0 \<or> end0 = 0
                then Some (0, c1\<lparr>status := CPU_INVALID_STACK_OPERATION\<rparr>)
                else
                  (case mem_write (memory c1) (stack_addr c1 (- stack_index))
                          (cpu_get_register c1 (reg_of reg_index)) of
                     None \<Rightarrow> None
                   | Some m \<Rightarrow> Some (1, c1\<lparr>memory := m, status := CPU_OK\<rparr>)))))"

text \<open>
  \<^verbatim>\<open>int32_t capacity = cpu->stack_capacity\<close> converts a \<^verbatim>\<open>size_t\<close>: the low 32 bits
  (\<open>word_of_nat\<close>).
\<close>

definition execute_push :: "cpu \<Rightarrow> (int \<times> cpu) option" where
  "execute_push c =
     (case operand c 1 of
        None \<Rightarrow> None
      | Some reg_index \<Rightarrow>
          (let c0 = advance c 1;
               capacity = (word_of_nat (stack_capacity c0) :: int32);
               (ok, c1) = is_valid_reg c0 reg_index
           in
           if \<not> ok then Some (0, c1)
           else if capacity \<le>s cpu_get_stack_size c1
           then Some (0, c1\<lparr>status := CPU_INVALID_STACK_OPERATION\<rparr>)
           else
             let reg_value = registers c1 (reg_of reg_index) in
             (case mem_write (memory c1) (stack_addr c1 (- cpu_get_stack_size c1)) reg_value of
                None \<Rightarrow> None
              | Some m \<Rightarrow>
                  Some (1, c1\<lparr>memory := m, stack_size := stack_size c1 + 1, status := CPU_OK\<rparr>))))"

definition execute_pop :: "cpu \<Rightarrow> (int \<times> cpu) option" where
  "execute_pop c =
     (case operand c 1 of
        None \<Rightarrow> None
      | Some reg_index \<Rightarrow>
          (let (ok, c1) = is_valid_reg (advance c 1) reg_index in
           if \<not> ok then Some (0, c1)
           else if cpu_get_stack_size c1 \<le>s 0
           then Some (0, c1\<lparr>status := CPU_INVALID_STACK_OPERATION\<rparr>)
           else
             let end_stack_index = - (cpu_get_stack_size c1 - 1) in
             (case mem_read (memory c1) (stack_addr c1 end_stack_index) of
                None \<Rightarrow> None
              | Some v \<Rightarrow>
                  (let c2 = cpu_set_register c1 (reg_of reg_index) v in
                   (case mem_write (memory c2) (stack_addr c2 end_stack_index) 0 of
                      None \<Rightarrow> None
                    | Some m \<Rightarrow>
                        Some (1, c2\<lparr>memory := m, stack_size := stack_size c2 - 1,
                                    status := CPU_OK\<rparr>))))))"

definition execute_call :: "cpu \<Rightarrow> (int \<times> cpu) option" where
  "execute_call c =
     (case operand c 1 of
        None \<Rightarrow> None
      | Some index_to_jump \<Rightarrow>
          (case operand c 2 of
             None \<Rightarrow> None
           | Some index_to_save \<Rightarrow>
               (let c1 = advance c 2;
                    stack_capac = (word_of_nat (stack_capacity c1) :: int32)
                in
                if stack_capac \<le>s cpu_get_stack_size c1
                then Some (0, c1\<lparr>status := CPU_INVALID_STACK_OPERATION\<rparr>)
                else
                  (case mem_write (memory c1) (stack_addr c1 (- cpu_get_stack_size c1))
                          index_to_save of
                     None \<Rightarrow> None
                   | Some m \<Rightarrow>
                       Some (1, c1\<lparr>memory := m, stack_size := stack_size c1 + 1,
                                   status := CPU_OK, inst_index := index_to_jump - 1\<rparr>)))))"

definition execute_ret :: "cpu \<Rightarrow> (int \<times> cpu) option" where
  "execute_ret c =
     (if cpu_get_stack_size c = 0
      then Some (0, c\<lparr>status := CPU_INVALID_STACK_OPERATION\<rparr>)
      else
        (case mem_read (memory c) (stack_addr c (- (cpu_get_stack_size c - 1))) of
           None \<Rightarrow> None
         | Some ind_to_jump \<Rightarrow>
             (case mem_write (memory c) (stack_addr c (- (cpu_get_stack_size c - 1))) 0 of
                None \<Rightarrow> None
              | Some m \<Rightarrow>
                  Some (1, c\<lparr>memory := m, inst_index := ind_to_jump - 1,
                             stack_size := stack_size c - 1, status := CPU_OK\<rparr>))))"

definition execute_cmp :: "cpu \<Rightarrow> (int \<times> cpu) option" where
  "execute_cmp c =
     (case operand c 1 of
        None \<Rightarrow> None
      | Some reg_index_1 \<Rightarrow>
          (case operand c 2 of
             None \<Rightarrow> None
           | Some reg_index_2 \<Rightarrow>
               (let (ok1, c1) = is_valid_reg (advance c 2) reg_index_1 in
                if \<not> ok1 then Some (0, c1)
                else
                  let (ok2, c2) = is_valid_reg c1 reg_index_2 in
                  if \<not> ok2 then Some (0, c2)
                  else
                    let result = registers c2 (reg_of reg_index_1) - registers c2 (reg_of reg_index_2);
                        c3 = cpu_set_register c2 REGISTER_RESULT result
                    in Some (1, c3\<lparr>status := CPU_OK\<rparr>))))"

definition execute_jmp :: "cpu \<Rightarrow> (int \<times> cpu) option" where
  "execute_jmp c =
     (case operand c 1 of
        None \<Rightarrow> None
      | Some index_to_jump \<Rightarrow>
          (let c1 = advance c 1;
               c2 = c1\<lparr>inst_index := index_to_jump - 1\<rparr>
           in Some (1, c2\<lparr>status := CPU_OK\<rparr>)))"

definition execute_jz :: "cpu \<Rightarrow> (int \<times> cpu) option" where
  "execute_jz c =
     (case operand c 1 of
        None \<Rightarrow> None
      | Some index_to_jump \<Rightarrow>
          (let c1 = advance c 1 in
           Some (1, if registers c1 REGISTER_RESULT = 0
                    then c1\<lparr>inst_index := index_to_jump - 1\<rparr> else c1)))"

definition execute_jnz :: "cpu \<Rightarrow> (int \<times> cpu) option" where
  "execute_jnz c =
     (case operand c 1 of
        None \<Rightarrow> None
      | Some index_to_jump \<Rightarrow>
          (let c1 = advance c 1 in
           Some (1, if registers c1 REGISTER_RESULT \<noteq> 0
                    then c1\<lparr>inst_index := index_to_jump - 1\<rparr> else c1)))"

definition execute_jgt :: "cpu \<Rightarrow> (int \<times> cpu) option" where
  "execute_jgt c =
     (case operand c 1 of
        None \<Rightarrow> None
      | Some index_to_jump \<Rightarrow>
          (let c1 = advance c 1 in
           Some (1, if 0 <s registers c1 REGISTER_RESULT
                    then c1\<lparr>inst_index := index_to_jump - 1\<rparr> else c1)))"

section \<open>The dispatch table, \<^verbatim>\<open>cpu_step\<close> and \<^verbatim>\<open>cpu_run\<close>\<close>

text \<open>The table \<^verbatim>\<open>instructions[]\<close>, in the order of the source.\<close>

definition instructions :: "scanf_d \<Rightarrow> (int32 \<times> (cpu \<Rightarrow> (int \<times> cpu) option)) list" where
  "instructions scanf =
     [ (0x00, execute_nop), (0x01, execute_halt), (0x02, execute_add), (0x03, execute_sub),
       (0x04, execute_mul), (0x05, execute_div), (0x06, execute_inc), (0x07, execute_dec),
       (0x08, execute_loop), (0x09, execute_movr), (0x0C, execute_in scanf),
       (0x0E, execute_out), (0x0F, execute_put), (0x0D, execute_get), (0x0A, execute_load),
       (0x0B, execute_store), (0x11, execute_push), (0x10, execute_swap), (0x12, execute_pop),
       (0x18, execute_call), (0x19, execute_ret), (19, execute_cmp), (20, execute_jmp),
       (21, execute_jz), (22, execute_jnz), (23, execute_jgt) ]"

text \<open>
  The scan of the table in \<^verbatim>\<open>cpu_step\<close>: the first entry whose opcode is the fetched
  word; \<open>None\<close> leaves \<^verbatim>\<open>instruction_found\<close> at 0.
\<close>

fun find_instruction ::
  "int32 \<Rightarrow> (int32 \<times> (cpu \<Rightarrow> (int \<times> cpu) option)) list \<Rightarrow> (cpu \<Rightarrow> (int \<times> cpu) option) option"
where
  "find_instruction instruction [] = None"
| "find_instruction instruction ((opcode, execute) # rest) =
     (if opcode = instruction then Some execute else find_instruction instruction rest)"

definition cpu_step :: "scanf_d \<Rightarrow> cpu \<Rightarrow> (int \<times> cpu) option" where
  "cpu_step scanf c =
     (if status c \<noteq> CPU_OK then Some (0, c)
      else if inst_index c <s 0 \<or> end_of_stack c <s inst_index c
      then Some (0, c\<lparr>status := CPU_INVALID_ADDRESS\<rparr>)
      else
        (case mem_read (memory c) (sint (inst_index c)) of
           None \<Rightarrow> None
         | Some instruction \<Rightarrow>
             (case find_instruction instruction (instructions scanf) of
                None \<Rightarrow> Some (0, c\<lparr>status := CPU_ILLEGAL_INSTRUCTION\<rparr>)
              | Some execute \<Rightarrow>
                  (case execute c of
                     None \<Rightarrow> None
                   | Some (executed, c1) \<Rightarrow>
                       if executed = 0 then Some (0, c1)
                       else Some (1, c1\<lparr>inst_index := inst_index c1 + 1\<rparr>)))))"

text \<open>
  The loop of \<^verbatim>\<open>cpu_run\<close>, by recursion on the iterations that remain; it carries
  \<^verbatim>\<open>executed_steps\<close> and returns it with \<^verbatim>\<open>error_steps\<close> and the machine. The counters are
  \<^verbatim>\<open>long long\<close>: they are integers here, since no budget a run can exhaust reaches
  \<open>2 ^ 63\<close>.
\<close>

fun run_loop :: "scanf_d \<Rightarrow> nat \<Rightarrow> cpu \<Rightarrow> int \<Rightarrow> (int \<times> int \<times> cpu) option" where
  "run_loop scanf 0 c executed_steps = Some (executed_steps, 0, c)"
| "run_loop scanf (Suc n) c executed_steps =
     (case cpu_step scanf c of
        None \<Rightarrow> None
      | Some (result, c1) \<Rightarrow>
          if status c1 = CPU_HALTED then Some (executed_steps + 1, 0, c1)
          else if result = 0 then Some (executed_steps, 1, c1)
          else run_loop scanf n c1 (executed_steps + 1))"

definition cpu_run :: "scanf_d \<Rightarrow> cpu \<Rightarrow> nat \<Rightarrow> (int \<times> cpu) option" where
  "cpu_run scanf c steps =
     (if status c \<noteq> CPU_OK then Some (0, c)
      else
        (case run_loop scanf steps c 0 of
           None \<Rightarrow> None
         | Some (executed_steps, error_steps, c1) \<Rightarrow>
             Some (if 0 < error_steps then - (error_steps + executed_steps) else executed_steps,
                   c1)))"

section \<open>The program loader\<close>

text \<open>
  \<^verbatim>\<open>cpu_create_memory\<close> depends on the allocator. It is modelled by two parameters:
  \<open>limit\<close>, the most words \<^verbatim>\<open>malloc\<close> and \<^verbatim>\<open>realloc\<close> can provide (a larger request
  returns \<^verbatim>\<open>NULL\<close>), and \<open>junk\<close>, the indeterminate content of each word of the
  buffer that the loader never writes. The loader ends in one of four ways: it returns
  \<^verbatim>\<open>NULL\<close>, the assertion \<^verbatim>\<open>cycle_index == 0\<close> fails and the process aborts (the Makefile
  does not define \<^verbatim>\<open>NDEBUG\<close>), the length given to \<^verbatim>\<open>memset\<close> wraps around and the call
  runs off the buffer, or it returns the buffer and the index of \<^verbatim>\<open>*stack_bottom\<close>.
\<close>

datatype load_error = RETURNS_NULL | ASSERTION_FAILED | MEMSET_OVERRUN

definition BLOCK_SIZE :: nat where
  "BLOCK_SIZE = 4096 div 4"

text \<open>
  The reading loop, one byte per call: \<open>words\<close> is \<^verbatim>\<open>memory[0 .. memory_index)\<close>. It
  gives the words read, \<^verbatim>\<open>memory_size\<close> (here \<open>msize\<close>) and \<^verbatim>\<open>cycle_index\<close> at the end of the input, or
  \<open>None\<close> when \<^verbatim>\<open>realloc\<close> fails. The test \<^verbatim>\<open>ch == EOF\<close> inside the loop can never hold.
\<close>

fun read_loop ::
  "nat \<Rightarrow> byte list \<Rightarrow> int32 list \<Rightarrow> nat \<Rightarrow> nat \<Rightarrow> int32 \<Rightarrow> (int32 list \<times> nat \<times> nat) option"
where
  "read_loop limit [] words msize cycle_index result =
     Some (words, msize, cycle_index)"
| "read_loop limit (ch # rest) words msize cycle_index result =
     (if length words = msize \<and> limit < msize + BLOCK_SIZE then None
      else
        let msize1 =
              (if length words = msize then msize + BLOCK_SIZE else msize);
            result1 = result OR push_bit (cycle_index * 8) (ucast ch);
            cycle_index1 = cycle_index + 1
        in
        if cycle_index1 = 4 then read_loop limit rest (words @ [result1]) msize1 0 0
        else read_loop limit rest words msize1 cycle_index1 result1)"

text \<open>
  The second loop, \<^verbatim>\<open>while ((memory_index + stack_capacity) > memory_size)\<close>, with
  \<open>need = memory_index + stack_capacity\<close>.
\<close>

function grow_for_stack :: "nat \<Rightarrow> nat \<Rightarrow> nat \<Rightarrow> nat option" where
  "grow_for_stack limit need msize =
     (if msize < need
      then (if limit < msize + BLOCK_SIZE then None
            else grow_for_stack limit need (msize + BLOCK_SIZE))
      else Some msize)"
  by pat_completeness auto
termination
  by (relation "measure (\<lambda>(limit, need, msize). need - msize)")
     (auto simp: BLOCK_SIZE_def)

declare grow_for_stack.simps [simp del]

text \<open>
  The call \<^verbatim>\<open>memset(memory + memory_index, 0, (memory_size - memory_index * sizeof(int32_t)))\<close>
  is given \<^verbatim>\<open>memory_size - 4 * memory_index\<close> as its length in bytes, where \<^verbatim>\<open>memory_size\<close>
  counts words: it zeroes the words from \<^verbatim>\<open>memory_index\<close> up to \<^verbatim>\<open>memory_size / 4\<close>
  (\<^verbatim>\<open>memory_size\<close> is a multiple of 1024). When \<^verbatim>\<open>4 * memory_index\<close> exceeds \<^verbatim>\<open>memory_size\<close>
  the unsigned length wraps around. The words after the zeroed ones keep what the
  allocator left in them.
\<close>

definition cpu_create_memory ::
  "nat \<Rightarrow> (nat \<Rightarrow> int32) \<Rightarrow> byte list \<Rightarrow> nat \<Rightarrow> load_error + (int32 list \<times> nat)"
where
  "cpu_create_memory limit junk program capacity =
     (if limit < BLOCK_SIZE then Inl RETURNS_NULL
      else
        (case read_loop limit program [] BLOCK_SIZE 0 0 of
           None \<Rightarrow> Inl RETURNS_NULL
         | Some (words, msize0, cycle_index) \<Rightarrow>
             if cycle_index \<noteq> 0 then Inl ASSERTION_FAILED
             else
               (case grow_for_stack limit (length words + capacity) msize0 of
                  None \<Rightarrow> Inl RETURNS_NULL
                | Some msize \<Rightarrow>
                    (let memory_index = length words in
                     if msize < memory_index * 4 then Inl MEMSET_OVERRUN
                     else
                       let zeroed = (msize - memory_index * 4) div 4 in
                       Inr (words @ replicate zeroed 0 @
                              map junk [memory_index + zeroed ..< msize],
                            msize - 1)))))"

section \<open>Vocabulary of the properties\<close>

text \<open>
  \<open>fetches c w\<close>: the machine is in status Ok, its instruction pointer passes the bound
  check of \<^verbatim>\<open>cpu_step\<close>, and the word it fetches is \<open>w\<close>.
\<close>

definition fetches :: "cpu \<Rightarrow> int32 \<Rightarrow> bool" where
  "fetches c w \<longleftrightarrow>
     status c = CPU_OK \<and> \<not> inst_index c <s 0 \<and> \<not> end_of_stack c <s inst_index c \<and>
     mem_read (memory c) (sint (inst_index c)) = Some w"

text \<open>\<open>in_buffer c i\<close>: the address \<open>i\<close> lies in the buffer of the machine.\<close>

definition in_buffer :: "cpu \<Rightarrow> int \<Rightarrow> bool" where
  "in_buffer c i \<longleftrightarrow> 0 \<le> i \<and> i < int (length (memory c))"

text \<open>
  Machines for the concrete instances: \<open>demo_cpu prog\<close> is \<^verbatim>\<open>cpu_create\<close> on a buffer that
  holds \<open>prog\<close> and eight more words, the last four of them the stack; \<open>no_input\<close> is a
  \<^verbatim>\<open>scanf\<close> that converts nothing.
\<close>

definition no_input :: scanf_d where
  "no_input inp = (None, inp)"

definition demo_cpu :: "int32 list \<Rightarrow> cpu" where
  "demo_cpu prog = cpu_create (prog @ replicate 8 0) (length prog + 7) 4 []"

definition jmp_demo :: cpu where
  "jmp_demo = demo_cpu [20, 3]"

text \<open>
  \<^verbatim>\<open>CALL 4, 2\<close> at index 0 and \<^verbatim>\<open>RET\<close> at index 4; \<open>call_demo_1\<close> and \<open>call_demo_2\<close> are the
  machines after the call and after the return.
\<close>

definition call_demo :: cpu where
  "call_demo = demo_cpu [0x18, 4, 2, 0, 0x19]"

definition call_demo_1 :: cpu where
  "call_demo_1 =
     call_demo\<lparr>memory := (memory call_demo)[12 := 2], stack_size := 1, inst_index := 4\<rparr>"

definition call_demo_2 :: cpu where
  "call_demo_2 =
     call_demo\<lparr>memory := (memory call_demo)[12 := 0], stack_size := 0, inst_index := 2\<rparr>"

text \<open>Instructions whose register operand is not an index from 0 to 4.\<close>

definition bad_add :: cpu where
  "bad_add = demo_cpu [0x02, 7]"

definition bad_movr :: cpu where
  "bad_movr = demo_cpu [0x09, 7, 1]"

definition bad_swap :: cpu where
  "bad_swap = demo_cpu [0x10, 1, 9]"

definition bad_in :: cpu where
  "bad_in = demo_cpu [0x0C, 7]"

text \<open>
  \<open>push_demo\<close> is about to push register A, which holds 7; \<open>pushed_demo\<close> is the machine
  after that step and \<open>reset_demo\<close> the one \<^verbatim>\<open>cpu_reset\<close> makes of it. In \<open>full_demo\<close> the
  program \<^verbatim>\<open>NOP; HALT\<close> fills the buffer up to the four stack words, and \<open>full_reset\<close> is
  its reset.
\<close>

definition push_demo :: cpu where
  "push_demo = (demo_cpu [0x11, 0])\<lparr>registers := (\<lambda>_. 0)(REGISTER_A := 7)\<rparr>"

definition pushed_demo :: cpu where
  "pushed_demo =
     push_demo\<lparr>memory := (memory push_demo)[9 := 7], stack_size := 1, inst_index := 2\<rparr>"

definition reset_demo :: cpu where
  "reset_demo = pushed_demo\<lparr>registers := (\<lambda>_. 0), stack_size := 0, status := CPU_OK\<rparr>"

definition full_demo :: cpu where
  "full_demo = cpu_create [0x00, 0x01, 0, 0, 0, 0] 5 4 []"

definition full_reset :: cpu where
  "full_reset = full_demo\<lparr>memory := [0x00] @ replicate 4 0 @ [0]\<rparr>"

text \<open>
  An allocator that leaves \<^verbatim>\<open>0xAA\<close> in every word; \<open>loaded_demo\<close> is the machine created
  from what the loader returns for the empty program and a stack of four words, and
  \<open>loaded_reset\<close> is its reset.
\<close>

definition junk_demo :: "nat \<Rightarrow> int32" where
  "junk_demo i = 0xAA"

definition loaded_demo :: cpu where
  "loaded_demo = cpu_create (replicate 256 0 @ map junk_demo [256 ..< 1024]) 1023 4 []"

definition loaded_reset :: cpu where
  "loaded_reset =
     loaded_demo\<lparr>memory := take 1019 (memory loaded_demo) @ replicate 4 0 @
                              drop 1023 (memory loaded_demo)\<rparr>"

text \<open>
  \<open>steps_ok scanf k c\<close>: the machine after \<open>k\<close> steps from \<open>c\<close>, when each of them returns
  1 (and \<open>None\<close> otherwise).
\<close>

fun steps_ok :: "scanf_d \<Rightarrow> nat \<Rightarrow> cpu \<Rightarrow> cpu option" where
  "steps_ok scanf 0 c = Some c"
| "steps_ok scanf (Suc k) c =
     (case cpu_step scanf c of
        None \<Rightarrow> None
      | Some (result, c1) \<Rightarrow> if result = 1 then steps_ok scanf k c1 else None)"

text \<open>
  What a step reports: it returns 1 and leaves status Ok, or it returns 0 and leaves an
  error status.
\<close>

definition reports :: "int \<Rightarrow> cpu \<Rightarrow> bool" where
  "reports r c1 \<longleftrightarrow>
     r = 1 \<and> status c1 = CPU_OK \<or> r = 0 \<and> status c1 \<noteq> CPU_OK \<and> status c1 \<noteq> CPU_HALTED"

text \<open>
  \<open>wf_cpu\<close>: the conditions under which no handler leaves the buffer. The word
  \<^verbatim>\<open>stack_bottom\<close> points to is in the buffer, the \<^verbatim>\<open>stack_capacity\<close> slots below and
  including it are too, the capacity fits an \<^verbatim>\<open>int32_t\<close>, the stack size is between 0 and
  the capacity, and the two words after \<^verbatim>\<open>end_of_stack\<close> are in the buffer (a handler
  reads its operands there when the pointer is at \<^verbatim>\<open>end_of_stack\<close>).
\<close>

definition wf_cpu :: "cpu \<Rightarrow> bool" where
  "wf_cpu c \<longleftrightarrow>
     stack_bottom c < length (memory c) \<and>
     stack_capacity c \<le> Suc (stack_bottom c) \<and>
     stack_capacity c < 2 ^ 31 \<and>
     0 \<le> sint (stack_size c) \<and> sint (stack_size c) \<le> int (stack_capacity c) \<and>
     sint (end_of_stack c) + 2 < int (length (memory c)) \<and>
     sint (end_of_stack c) + 2 < 2 ^ 31"

text \<open>
  \<open>free_slots_zero\<close>: every slot of the stack from \<^verbatim>\<open>stack_size\<close> up to the capacity,
  counted from the stack bottom, holds zero.
\<close>

definition free_slots_zero :: "cpu \<Rightarrow> bool" where
  "free_slots_zero c \<longleftrightarrow>
     list_all (\<lambda>k. mem_read (memory c) (int (stack_bottom c) - int k) = Some 0)
       [nat (sint (stack_size c)) ..< stack_capacity c]"

text \<open>\<open>ip_ok\<close>: the bound check of \<^verbatim>\<open>cpu_step\<close> on the instruction pointer.\<close>

definition ip_ok :: "cpu \<Rightarrow> bool" where
  "ip_ok c \<longleftrightarrow> \<not> inst_index c <s 0 \<and> \<not> end_of_stack c <s inst_index c"

text \<open>
  \<open>same_stack c c1\<close>: memory, stack and bounds are the same in both machines.
  \<open>handler_safe h\<close>: on a well-formed machine whose pointer passed the bound check, the
  handler \<open>h\<close> stays in the buffer and keeps \<open>wf_cpu\<close> and \<open>free_slots_zero\<close>.
\<close>

definition same_stack :: "cpu \<Rightarrow> cpu \<Rightarrow> bool" where
  "same_stack c c1 \<longleftrightarrow>
     memory c1 = memory c \<and> stack_bottom c1 = stack_bottom c \<and>
     stack_capacity c1 = stack_capacity c \<and> stack_size c1 = stack_size c \<and>
     end_of_stack c1 = end_of_stack c"

definition handler_safe :: "(cpu \<Rightarrow> (int \<times> cpu) option) \<Rightarrow> bool" where
  "handler_safe h \<longleftrightarrow>
     (\<forall>c. wf_cpu c \<and> ip_ok c \<longrightarrow>
        (\<exists>r c1. h c = Some (r, c1) \<and> wf_cpu c1 \<and>
           (free_slots_zero c \<longrightarrow> free_slots_zero c1)))"

text \<open>
  The program of the specification, \<^verbatim>\<open>MOVR A,5; MOVR B,3; ADD B; HALT\<close>: \<open>sum_demo_3\<close> is
  the machine after three steps, \<open>sum_final\<close> after the halt. \<open>div_demo\<close> divides 10 by
  register B, which holds 0.
\<close>

definition sum_demo :: cpu where
  "sum_demo = demo_cpu [0x09, 0, 5, 0x09, 1, 3, 0x02, 1, 0x01]"

definition sum_demo_3 :: cpu where
  "sum_demo_3 =
     sum_demo\<lparr>inst_index := 8,
              registers := (\<lambda>_. 0)(REGISTER_A := 8, REGISTER_B := 3, REGISTER_RESULT := 8)\<rparr>"

definition sum_final :: cpu where
  "sum_final = sum_demo_3\<lparr>status := CPU_HALTED\<rparr>"

definition div_demo :: cpu where
  "div_demo = (demo_cpu [0x05, 1, 0x01])\<lparr>registers := (\<lambda>_. 0)(REGISTER_A := 10)\<rparr>"

definition div_final :: cpu where
  "div_final = div_demo\<lparr>inst_index := 1, status := CPU_DIV_BY_ZERO\<rparr>"

text \<open>
  \<open>div_traps c\<close>: the machine is about to execute \<^verbatim>\<open>DIV\<close> with a valid register that holds
  \<open>- 1\<close> while A holds \<open>- 2 ^ 31\<close>.
\<close>

definition div_traps :: "cpu \<Rightarrow> bool" where
  "div_traps c \<longleftrightarrow>
     fetches c 0x05 \<and>
     (case operand c 1 of
        None \<Rightarrow> False
      | Some r \<Rightarrow>
          \<not> r <s 0 \<and> \<not> 4 <s r \<and> sint (registers c REGISTER_A) = - (2 ^ 31) \<and>
          sint (registers c (reg_of r)) = - 1)"

text \<open>
  \<^verbatim>\<open>MOVR A,-2147483648; MOVR B,-1; DIV B; HALT\<close>, and the machine after the two \<^verbatim>\<open>MOVR\<close>.
\<close>

definition overflow_demo :: cpu where
  "overflow_demo = demo_cpu [0x09, 0, 0x80000000, 0x09, 1, 0xFFFFFFFF, 0x05, 1, 0x01]"

definition overflow_demo_2 :: cpu where
  "overflow_demo_2 =
     overflow_demo\<lparr>inst_index := 6,
                   registers := (\<lambda>_. 0)(REGISTER_A := 0x80000000, REGISTER_B := 0xFFFFFFFF)\<rparr>"

section \<open>Properties\<close>

subsection \<open>Auxiliary facts\<close>

lemma valid_reg_cases:
  "\<not> r <s 0 \<Longrightarrow> \<not> 4 <s (r::int32) \<Longrightarrow> r = 0 \<or> r = 1 \<or> r = 2 \<or> r = 3 \<or> r = 4"
proof -
  assume a: "\<not> r <s 0" "\<not> 4 <s r"
  then have "0 \<le> sint r" "sint r \<le> 4" by (simp_all add: word_sless_alt)
  then have "sint r = 0 \<or> sint r = 1 \<or> sint r = 2 \<or> sint r = 3 \<or> sint r = 4" by arith
  moreover have "r = word_of_int (sint r)" by simp
  ultimately show ?thesis by (metis of_int_0 of_int_1 of_int_numeral)
qed

text \<open>A step that fetches an opcode of the table is the handler, then the increment.\<close>

lemma cpu_step_dispatch:
  assumes "fetches c w" and "find_instruction w (instructions sc) = Some h"
  shows "cpu_step sc c =
           (case h c of
              None \<Rightarrow> None
            | Some (executed, c1) \<Rightarrow>
                if executed = 0 then Some (0, c1)
                else Some (1, c1\<lparr>inst_index := inst_index c1 + 1\<rparr>))"
  using assms by (simp add: cpu_step_def fetches_def)

text \<open>When \<open>div32\<close> is defined, it is the truncated quotient of the signed values.\<close>

lemma sint_div32:
  assumes "div32 a b = Some q"
  shows "sint q = sint a sdiv sint b"
proof -
  from assms have nov: "\<not> (sint a = - (2 ^ 31) \<and> sint b = - 1)"
    and qd: "q = word_of_int (sint a sdiv sint b)"
    by (simp_all add: div32_def split: if_splits)
  have ra: "- (2 ^ 31) \<le> sint a" "sint a < 2 ^ 31"
    using sint_ge [of a] sint_lt [of a] by simp_all
  define x where "x = sint a"
  define y where "y = sint b"
  have q: "- (2 ^ 31) \<le> x sdiv y \<and> x sdiv y < 2 ^ 31"
  proof -
    have nn: "0 \<le> \<bar>x\<bar> div \<bar>y\<bar>"
      by (simp add: div_int_pos_iff)
    have abs: "\<bar>x sdiv y\<bar> \<le> \<bar>x\<bar> div \<bar>y\<bar>"
      using nn by (auto simp add: signed_divide_int_def abs_mult sgn_if)
    consider "y = 0" | "y = 1" | "y = - 1" | "2 \<le> \<bar>y\<bar>" by arith
    then show ?thesis
    proof cases
      case 1 then show ?thesis by (simp add: signed_divide_int_def)
    next
      case 2 then show ?thesis using ra by (simp add: signed_divide_int_def x_def sgn_if)
    next
      case 3 then show ?thesis
        using ra nov by (simp add: signed_divide_int_def x_def y_def sgn_if)
    next
      case 4
      have "\<bar>x\<bar> div \<bar>y\<bar> \<le> \<bar>x\<bar> div 2"
        using 4 by (intro zdiv_mono2) simp_all
      moreover have "\<bar>x\<bar> \<le> 2 ^ 31" using ra by (simp add: x_def abs_le_iff)
      ultimately have "\<bar>x sdiv y\<bar> \<le> 2 ^ 30" using abs by simp
      then show ?thesis by (simp add: abs_le_iff)
    qed
  qed
  show ?thesis
    unfolding qd using q
    by (simp add: sint_sbintrunc' signed_take_bit_int_eq_self x_def y_def)
qed

subsection \<open>32-bit arithmetic without wrap-around\<close>

lemma sint_of_int_gen:
  "- (2 ^ (LENGTH('a) - 1)) \<le> k \<Longrightarrow> k < 2 ^ (LENGTH('a) - 1) \<Longrightarrow>
     sint (word_of_int k :: 'a::len word) = k"
  by (simp add: sint_sbintrunc' signed_take_bit_int_eq_self)

lemma sint_of_int32:
  "- (2 ^ 31) \<le> k \<Longrightarrow> k < 2 ^ 31 \<Longrightarrow> sint (word_of_int k :: int32) = k"
  using sint_of_int_gen [where 'a = 32, of k] by simp

lemma sint_range32: "- (2 ^ 31) \<le> sint (a :: int32)" "sint (a :: int32) < 2 ^ 31"
  using sint_ge [of a] sint_lt [of a] by simp_all

lemma sint_add_no_wrap:
  "- (2 ^ 31) \<le> sint a + sint b \<Longrightarrow> sint a + sint b < 2 ^ 31 \<Longrightarrow>
     sint (a + b :: int32) = sint a + sint b"
  using sint_of_int32 [of "sint a + sint b"] by simp

lemma sint_sub_no_wrap:
  "- (2 ^ 31) \<le> sint a - sint b \<Longrightarrow> sint a - sint b < 2 ^ 31 \<Longrightarrow>
     sint (a - b :: int32) = sint a - sint b"
  using sint_of_int32 [of "sint a - sint b"] by simp

lemma sint_neg_no_wrap:
  "- (2 ^ 31) < sint (a :: int32) \<Longrightarrow> sint (- a) = - sint a"
  using sint_of_int32 [of "- sint a"] sint_range32 [of a] by simp

lemma sint_of_nat32: "n < 2 ^ 31 \<Longrightarrow> sint (word_of_nat n :: int32) = int n"
  using sint_of_int32 [of "int n"] by simp

subsection \<open>The table entries\<close>

lemma find_div: "find_instruction 5 (instructions sc) = Some execute_div"
  by (simp add: instructions_def)

lemma find_entries:
  "find_instruction 0x00 (instructions sc) = Some execute_nop"
  "find_instruction 0x01 (instructions sc) = Some execute_halt"
  "find_instruction 0x02 (instructions sc) = Some execute_add"
  "find_instruction 0x03 (instructions sc) = Some execute_sub"
  "find_instruction 0x04 (instructions sc) = Some execute_mul"
  "find_instruction 0x06 (instructions sc) = Some execute_inc"
  "find_instruction 0x07 (instructions sc) = Some execute_dec"
  "find_instruction 0x08 (instructions sc) = Some execute_loop"
  "find_instruction 0x09 (instructions sc) = Some execute_movr"
  "find_instruction 0x0A (instructions sc) = Some execute_load"
  "find_instruction 0x0B (instructions sc) = Some execute_store"
  "find_instruction 0x0C (instructions sc) = Some (execute_in sc)"
  "find_instruction 0x0D (instructions sc) = Some execute_get"
  "find_instruction 0x0E (instructions sc) = Some execute_out"
  "find_instruction 0x0F (instructions sc) = Some execute_put"
  "find_instruction 0x10 (instructions sc) = Some execute_swap"
  "find_instruction 0x11 (instructions sc) = Some execute_push"
  "find_instruction 0x12 (instructions sc) = Some execute_pop"
  "find_instruction 0x18 (instructions sc) = Some execute_call"
  "find_instruction 0x19 (instructions sc) = Some execute_ret"
  "find_instruction 19 (instructions sc) = Some execute_cmp"
  "find_instruction 20 (instructions sc) = Some execute_jmp"
  "find_instruction 21 (instructions sc) = Some execute_jz"
  "find_instruction 22 (instructions sc) = Some execute_jnz"
  "find_instruction 23 (instructions sc) = Some execute_jgt"
  by (simp_all add: instructions_def)

text \<open>The definitions that evaluate the example machines.\<close>

lemmas demo_defs = demo_cpu_def cpu_create_def fetches_def operand_def mem_read_def
  in_buffer_def stack_addr_def word_sless_alt word_sle_eq

subsection \<open>Steps of single instructions\<close>

lemma succ_not_zero: "0 \<le>s (x::int32) \<Longrightarrow> x + 1 \<noteq> 0"
proof
  assume a: "0 \<le>s x" and b: "x + 1 = 0"
  from b have "x = - 1" by (simp add: eq_neg_iff_add_eq_0)
  with a show False by (simp add: word_sle_eq)
qed

lemma step_branch:
  assumes "fetches c w" and "operand c 1 = Some addr"
    and "w = 0x08 \<and> registers c REGISTER_C \<noteq> 0 \<or> w = 20 \<or>
         w = 21 \<and> registers c REGISTER_RESULT = 0 \<or>
         w = 22 \<and> registers c REGISTER_RESULT \<noteq> 0 \<or>
         w = 23 \<and> 0 <s registers c REGISTER_RESULT"
  shows "cpu_step sc c = Some (1, c\<lparr>inst_index := addr\<rparr>)"
  using assms
  by (auto simp add: cpu_step_dispatch [OF assms(1)] find_entries execute_loop_def
      execute_jmp_def execute_jz_def execute_jnz_def execute_jgt_def advance_def Let_def
      fetches_def)

lemma step_call:
  assumes "fetches c 0x18" and "operand c 1 = Some addr" and "operand c 2 = Some ret"
    and "\<not> word_of_nat (stack_capacity c) \<le>s stack_size c"
    and "in_buffer c (stack_addr c (- stack_size c))"
  shows "cpu_step sc c =
           Some (1, c\<lparr>memory := (memory c)[nat (stack_addr c (- stack_size c)) := ret],
                      stack_size := stack_size c + 1, inst_index := addr\<rparr>)"
  using assms
  by (auto simp add: cpu_step_dispatch [OF assms(1)] find_entries execute_call_def advance_def
      Let_def fetches_def cpu_get_stack_size_def mem_write_def in_buffer_def stack_addr_def)

lemma step_ret:
  assumes "fetches c 0x19" and "stack_size c \<noteq> 0"
    and "mem_read (memory c) (stack_addr c (- (stack_size c - 1))) = Some addr"
  shows "cpu_step sc c =
           Some (1, c\<lparr>memory := (memory c)[nat (stack_addr c (- (stack_size c - 1))) := 0],
                      inst_index := addr, stack_size := stack_size c - 1\<rparr>)"
  using assms
  by (auto simp add: cpu_step_dispatch [OF assms(1)] find_entries execute_ret_def
      Let_def fetches_def cpu_get_stack_size_def mem_write_def mem_read_def stack_addr_def
      split: if_splits)

lemma step_bad_register_1:
  assumes "fetches c w" and "operand c 1 = Some r" and "r <s 0 \<or> 4 <s r"
    and "w \<in> {0x02, 0x03, 0x04, 0x05, 0x06, 0x07, 0x0D, 0x0E, 0x0F, 0x11, 0x12}"
  shows "cpu_step sc c =
           Some (0, c\<lparr>inst_index := inst_index c + 1, status := CPU_ILLEGAL_OPERAND\<rparr>)"
  using assms(2-4)
  by (auto simp add: cpu_step_dispatch [OF assms(1)] find_entries find_div execute_add_def
      execute_sub_def execute_mul_def execute_div_def execute_inc_def execute_dec_def
      execute_get_def execute_out_def execute_put_def execute_push_def execute_pop_def
      is_valid_reg_def advance_def Let_def)

lemma step_bad_register_2:
  assumes "fetches c w" and "operand c 1 = Some r" and "operand c 2 = Some x"
    and "r <s 0 \<or> 4 <s r" and "w \<in> {0x09, 0x0A, 0x0B, 0x10, 19}"
  shows "cpu_step sc c =
           Some (0, c\<lparr>inst_index := inst_index c + 2, status := CPU_ILLEGAL_OPERAND\<rparr>)"
  using assms(2-5)
  by (auto simp add: cpu_step_dispatch [OF assms(1)] find_entries execute_movr_def
      execute_load_def execute_store_def execute_swap_def execute_cmp_def
      is_valid_reg_def advance_def Let_def)

lemma step_bad_second_register:
  assumes "fetches c w" and "operand c 1 = Some r" and "operand c 2 = Some x"
    and "\<not> (r <s 0 \<or> 4 <s r)" and "x <s 0 \<or> 4 <s x" and "w \<in> {0x10, 19}"
  shows "cpu_step sc c =
           Some (0, c\<lparr>inst_index := inst_index c + 2, status := CPU_ILLEGAL_OPERAND\<rparr>)"
  using assms(2-6)
  by (auto simp add: cpu_step_dispatch [OF assms(1)] find_entries
      execute_swap_def execute_cmp_def is_valid_reg_def advance_def Let_def)

lemma step_in_bad_register:
  assumes "fetches c 0x0C" and "operand c 1 = Some r" and "r <s 0 \<or> 4 <s r"
  shows "cpu_step sc c = Some (0, c\<lparr>status := CPU_ILLEGAL_OPERAND\<rparr>)"
  using assms(2-3)
  by (auto simp add: cpu_step_dispatch [OF assms(1)] find_entries execute_in_def
      is_valid_reg_def advance_def Let_def)

text \<open>
  \<^verbatim>\<open>DIV\<close> with a valid register: a zero divisor fails with DivisionByZero and changes
  neither register; a quotient that fits 32 bits goes to A and to Result, and it is the
  quotient of the signed values truncated towards zero; \<open>- 2 ^ 31\<close> divided by \<open>- 1\<close> does
  not return.
\<close>

lemma step_div:
  assumes "fetches c 0x05" and "operand c 1 = Some r" and "\<not> r <s 0" and "\<not> 4 <s r"
  shows "registers c (reg_of r) = 0 \<Longrightarrow>
           cpu_step sc c =
             Some (0, c\<lparr>inst_index := inst_index c + 1, status := CPU_DIV_BY_ZERO\<rparr>)"
    and "registers c (reg_of r) \<noteq> 0 \<Longrightarrow>
         \<not> (sint (registers c REGISTER_A) = - (2 ^ 31) \<and>
            sint (registers c (reg_of r)) = - 1) \<Longrightarrow>
           cpu_step sc c =
             Some (1, c\<lparr>inst_index := inst_index c + 2,
                        registers := (registers c)
                          (REGISTER_A :=
                             word_of_int (sint (registers c REGISTER_A) sdiv
                                          sint (registers c (reg_of r))),
                           REGISTER_RESULT :=
                             word_of_int (sint (registers c REGISTER_A) sdiv
                                          sint (registers c (reg_of r)))),
                        status := CPU_OK\<rparr>) \<and>
           sint (word_of_int (sint (registers c REGISTER_A) sdiv
                              sint (registers c (reg_of r))) :: int32) =
             sgn (sint (registers c REGISTER_A)) * sgn (sint (registers c (reg_of r))) *
             (\<bar>sint (registers c REGISTER_A)\<bar> div \<bar>sint (registers c (reg_of r))\<bar>)"
    and "sint (registers c REGISTER_A) = - (2 ^ 31) \<Longrightarrow>
         sint (registers c (reg_of r)) = - 1 \<Longrightarrow> cpu_step sc c = None"
proof -
  have d: "cpu_step sc c =
          (case execute_div c of
             None \<Rightarrow> None
           | Some (executed, c1) \<Rightarrow>
               if executed = 0 then Some (0, c1)
               else Some (1, c1\<lparr>inst_index := inst_index c1 + 1\<rparr>))"
    by (rule cpu_step_dispatch [OF assms(1) find_div])
  show "cpu_step sc c =
          Some (0, c\<lparr>inst_index := inst_index c + 1, status := CPU_DIV_BY_ZERO\<rparr>)"
    if "registers c (reg_of r) = 0"
    using assms(2-4) that
    by (simp add: d execute_div_def is_valid_reg_def advance_def Let_def)
  show "cpu_step sc c =
             Some (1, c\<lparr>inst_index := inst_index c + 2,
                        registers := (registers c)
                          (REGISTER_A :=
                             word_of_int (sint (registers c REGISTER_A) sdiv
                                          sint (registers c (reg_of r))),
                           REGISTER_RESULT :=
                             word_of_int (sint (registers c REGISTER_A) sdiv
                                          sint (registers c (reg_of r)))),
                        status := CPU_OK\<rparr>) \<and>
           sint (word_of_int (sint (registers c REGISTER_A) sdiv
                              sint (registers c (reg_of r))) :: int32) =
             sgn (sint (registers c REGISTER_A)) * sgn (sint (registers c (reg_of r))) *
             (\<bar>sint (registers c REGISTER_A)\<bar> div \<bar>sint (registers c (reg_of r))\<bar>)"
    if nz: "registers c (reg_of r) \<noteq> 0"
      and nov: "\<not> (sint (registers c REGISTER_A) = - (2 ^ 31) \<and>
                  sint (registers c (reg_of r)) = - 1)"
  proof -
    have q: "div32 (registers c REGISTER_A) (registers c (reg_of r)) =
               Some (word_of_int (sint (registers c REGISTER_A) sdiv
                                  sint (registers c (reg_of r))))"
      using nz nov by (simp add: div32_def)
    have "cpu_step sc c =
             Some (1, c\<lparr>inst_index := inst_index c + 2,
                        registers := (registers c)
                          (REGISTER_A :=
                             word_of_int (sint (registers c REGISTER_A) sdiv
                                          sint (registers c (reg_of r))),
                           REGISTER_RESULT :=
                             word_of_int (sint (registers c REGISTER_A) sdiv
                                          sint (registers c (reg_of r)))),
                        status := CPU_OK\<rparr>)"
      using assms(2-4) nz
      by (simp add: d execute_div_def is_valid_reg_def advance_def cpu_set_register_def
          Let_def q)
    moreover from sint_div32 [OF q]
    have "sint (word_of_int (sint (registers c REGISTER_A) sdiv
                              sint (registers c (reg_of r))) :: int32) =
             sgn (sint (registers c REGISTER_A)) * sgn (sint (registers c (reg_of r))) *
             (\<bar>sint (registers c REGISTER_A)\<bar> div \<bar>sint (registers c (reg_of r))\<bar>)"
      by (simp add: signed_divide_int_def)
    ultimately show ?thesis by simp
  qed
  show "cpu_step sc c = None"
    if t: "sint (registers c REGISTER_A) = - (2 ^ 31)" "sint (registers c (reg_of r)) = - 1"
  proof -
    from t(2) have nz: "registers c (reg_of r) \<noteq> 0" by auto
    have q: "div32 (registers c REGISTER_A) (registers c (reg_of r)) = None"
      using t by (simp add: div32_def)
    show ?thesis
      using assms(2-4) nz
      by (simp add: d execute_div_def is_valid_reg_def advance_def Let_def q)
  qed
qed

lemma call_demo_steps:
  "cpu_step no_input call_demo = Some (1, call_demo_1)"
  "cpu_step no_input call_demo_1 = Some (1, call_demo_2)"
proof -
  have f: "fetches call_demo 0x18" "fetches call_demo_1 0x19"
    by (simp_all add: call_demo_def call_demo_1_def demo_defs nth_append)
  have o: "operand call_demo 1 = Some 4" "operand call_demo 2 = Some 2"
    by (simp_all add: call_demo_def demo_defs)
  have s: "\<not> word_of_nat (stack_capacity call_demo) \<le>s stack_size call_demo"
    "in_buffer call_demo (stack_addr call_demo (- stack_size call_demo))"
    "stack_size call_demo_1 \<noteq> 0"
    "mem_read (memory call_demo_1) (stack_addr call_demo_1 (- (stack_size call_demo_1 - 1)))
       = Some 2"
    by (simp_all add: call_demo_def call_demo_1_def demo_defs)
  show "cpu_step no_input call_demo = Some (1, call_demo_1)"
    unfolding step_call [OF f(1) o s(1,2)]
    by (simp add: call_demo_def call_demo_1_def demo_defs)
  show "cpu_step no_input call_demo_1 = Some (1, call_demo_2)"
    unfolding step_ret [OF f(2) s(3,4)]
    by (simp add: call_demo_def call_demo_1_def call_demo_2_def demo_defs)
qed

subsection \<open>What a step reports\<close>

lemma table_cases:
  assumes "find_instruction w (instructions sc) = Some h"
  shows "w = 0x00 \<and> h = execute_nop \<or> w = 0x01 \<and> h = execute_halt \<or>
         w = 0x02 \<and> h = execute_add \<or> w = 0x03 \<and> h = execute_sub \<or>
         w = 0x04 \<and> h = execute_mul \<or> w = 0x05 \<and> h = execute_div \<or>
         w = 0x06 \<and> h = execute_inc \<or> w = 0x07 \<and> h = execute_dec \<or>
         w = 0x08 \<and> h = execute_loop \<or> w = 0x09 \<and> h = execute_movr \<or>
         w = 0x0C \<and> h = execute_in sc \<or> w = 0x0E \<and> h = execute_out \<or>
         w = 0x0F \<and> h = execute_put \<or> w = 0x0D \<and> h = execute_get \<or>
         w = 0x0A \<and> h = execute_load \<or> w = 0x0B \<and> h = execute_store \<or>
         w = 0x11 \<and> h = execute_push \<or> w = 0x10 \<and> h = execute_swap \<or>
         w = 0x12 \<and> h = execute_pop \<or> w = 0x18 \<and> h = execute_call \<or>
         w = 0x19 \<and> h = execute_ret \<or> w = 19 \<and> h = execute_cmp \<or>
         w = 20 \<and> h = execute_jmp \<or> w = 21 \<and> h = execute_jz \<or>
         w = 22 \<and> h = execute_jnz \<or> w = 23 \<and> h = execute_jgt"
  using assms by (simp add: instructions_def split: if_splits)
lemma handler_status_1:
  assumes "status c = CPU_OK"
  shows "execute_nop c = Some (r, c1) \<Longrightarrow> reports r c1"
    and "execute_add c = Some (r, c1) \<Longrightarrow> reports r c1"
    and "execute_sub c = Some (r, c1) \<Longrightarrow> reports r c1"
    and "execute_mul c = Some (r, c1) \<Longrightarrow> reports r c1"
    and "execute_div c = Some (r, c1) \<Longrightarrow> reports r c1"
    and "execute_inc c = Some (r, c1) \<Longrightarrow> reports r c1"
    and "execute_dec c = Some (r, c1) \<Longrightarrow> reports r c1"
    and "execute_loop c = Some (r, c1) \<Longrightarrow> reports r c1"
    and "execute_movr c = Some (r, c1) \<Longrightarrow> reports r c1"
    and "execute_in sc c = Some (r, c1) \<Longrightarrow> reports r c1"
    and "execute_out c = Some (r, c1) \<Longrightarrow> reports r c1"
    and "execute_put c = Some (r, c1) \<Longrightarrow> reports r c1"
    and "execute_get c = Some (r, c1) \<Longrightarrow> reports r c1"
  using assms
  by (auto simp add: reports_def execute_nop_def execute_add_def execute_sub_def execute_mul_def
      execute_div_def execute_inc_def execute_dec_def execute_loop_def execute_movr_def
      execute_in_def execute_out_def execute_put_def execute_get_def
      is_valid_reg_def advance_def cpu_set_register_def div32_def Let_def
      split: option.splits if_splits prod.splits list.splits)

lemma handler_status_2:
  assumes "status c = CPU_OK"
  shows "execute_load c = Some (r, c1) \<Longrightarrow> reports r c1"
    and "execute_store c = Some (r, c1) \<Longrightarrow> reports r c1"
    and "execute_push c = Some (r, c1) \<Longrightarrow> reports r c1"
    and "execute_swap c = Some (r, c1) \<Longrightarrow> reports r c1"
    and "execute_pop c = Some (r, c1) \<Longrightarrow> reports r c1"
    and "execute_call c = Some (r, c1) \<Longrightarrow> reports r c1"
    and "execute_ret c = Some (r, c1) \<Longrightarrow> reports r c1"
    and "execute_cmp c = Some (r, c1) \<Longrightarrow> reports r c1"
    and "execute_jmp c = Some (r, c1) \<Longrightarrow> reports r c1"
    and "execute_jz c = Some (r, c1) \<Longrightarrow> reports r c1"
    and "execute_jnz c = Some (r, c1) \<Longrightarrow> reports r c1"
    and "execute_jgt c = Some (r, c1) \<Longrightarrow> reports r c1"
  using assms
  by (auto simp add: reports_def execute_load_def execute_store_def execute_push_def
      execute_swap_def execute_pop_def execute_call_def execute_ret_def execute_cmp_def
      execute_jmp_def execute_jz_def execute_jnz_def execute_jgt_def
      is_valid_reg_def advance_def cpu_set_register_def cpu_get_stack_size_def Let_def
      split: option.splits if_splits prod.splits)


lemma halt_status: "execute_halt c = Some (r, c1) \<Longrightarrow> r = 0 \<and> status c1 = CPU_HALTED"
  by (auto simp add: execute_halt_def)

lemma cpu_step_status:
  assumes ok: "status c = CPU_OK" and st: "cpu_step sc c = Some (r, c1)"
  shows "reports r c1 \<or> r = 0 \<and> status c1 = CPU_HALTED \<and> fetches c 0x01"
proof (cases "inst_index c <s 0 \<or> end_of_stack c <s inst_index c")
  case True
  with ok st show ?thesis by (auto simp add: cpu_step_def reports_def)
next
  case False
  with ok st obtain w where w: "mem_read (memory c) (sint (inst_index c)) = Some w"
    by (auto simp add: cpu_step_def split: option.splits)
  with ok False have f: "fetches c w" by (simp add: fetches_def)
  show ?thesis
  proof (cases "find_instruction w (instructions sc)")
    case None
    with ok st False w show ?thesis by (auto simp add: cpu_step_def reports_def)
  next
    case (Some h)
    from st obtain e c0 where h: "h c = Some (e, c0)"
      and rc: "(r, c1) = (if e = 0 then (0, c0) else (1, c0\<lparr>inst_index := inst_index c0 + 1\<rparr>))"
      unfolding cpu_step_dispatch [OF f Some]
      by (auto split: option.splits if_splits)
    have "reports e c0 \<or> e = 0 \<and> status c0 = CPU_HALTED \<and> w = 0x01"
      using table_cases [OF Some] h handler_status_1 [OF ok] handler_status_2 [OF ok] halt_status
      by (elim disjE conjE) simp_all
    then show ?thesis
      using rc f by (auto simp add: reports_def split: if_splits)
  qed
qed

lemma run_loop_outcome:
  assumes "status c = CPU_OK" and "run_loop sc n c e = Some (ex, er, c')"
  shows "(steps_ok sc n c = Some c' \<and> status c' = CPU_OK \<and> ex = e + int n \<and> er = 0) \<or>
         (\<exists>k c1. k < n \<and> steps_ok sc k c = Some c1 \<and> fetches c1 0x01 \<and>
                  cpu_step sc c1 = Some (0, c') \<and> status c' = CPU_HALTED \<and>
                  ex = e + int k + 1 \<and> er = 0) \<or>
         (\<exists>k c1. k < n \<and> steps_ok sc k c = Some c1 \<and> cpu_step sc c1 = Some (0, c') \<and>
                  status c' \<noteq> CPU_OK \<and> status c' \<noteq> CPU_HALTED \<and>
                  ex = e + int k \<and> er = 1)"
  using assms
proof (induction n arbitrary: c e)
  case 0
  then show ?case by simp
next
  case (Suc n)
  from Suc.prems(2) obtain r c1 where st: "cpu_step sc c = Some (r, c1)"
    by (auto split: option.splits)
  from cpu_step_status [OF Suc.prems(1) st]
  consider (ok) "r = 1" "status c1 = CPU_OK"
    | (err) "r = 0" "status c1 \<noteq> CPU_OK" "status c1 \<noteq> CPU_HALTED"
    | (halt) "r = 0" "status c1 = CPU_HALTED" "fetches c 0x01"
    by (auto simp add: reports_def)
  then show ?case
  proof cases
    case ok
    with Suc.prems(2) st have rl: "run_loop sc n c1 (e + 1) = Some (ex, er, c')" by simp
    from Suc.IH [OF ok(2) rl] show ?thesis
    proof (elim disjE exE conjE)
      assume "steps_ok sc n c1 = Some c'" "status c' = CPU_OK" "ex = e + 1 + int n" "er = 0"
      then show ?thesis using st ok by simp
    next
      fix k c2
      assume "k < n" "steps_ok sc k c1 = Some c2" "fetches c2 0x01"
        "cpu_step sc c2 = Some (0, c')" "status c' = CPU_HALTED" "ex = e + 1 + int k + 1" "er = 0"
      then have "Suc k < Suc n \<and> steps_ok sc (Suc k) c = Some c2 \<and> fetches c2 0x01 \<and>
                  cpu_step sc c2 = Some (0, c') \<and> status c' = CPU_HALTED \<and>
                  ex = e + int (Suc k) + 1 \<and> er = 0"
        using st ok by simp
      then show ?thesis by blast
    next
      fix k c2
      assume "k < n" "steps_ok sc k c1 = Some c2"
        "cpu_step sc c2 = Some (0, c')" "status c' \<noteq> CPU_OK" "status c' \<noteq> CPU_HALTED"
        "ex = e + 1 + int k" "er = 1"
      then have "Suc k < Suc n \<and> steps_ok sc (Suc k) c = Some c2 \<and>
                  cpu_step sc c2 = Some (0, c') \<and> status c' \<noteq> CPU_OK \<and>
                  status c' \<noteq> CPU_HALTED \<and> ex = e + int (Suc k) \<and> er = 1"
        using st ok by simp
      then show ?thesis by blast
    qed
  next
    case err
    with Suc.prems(2) st have "ex = e" "er = 1" "c' = c1" by simp_all
    then have "0 < Suc n \<and> steps_ok sc 0 c = Some c \<and> cpu_step sc c = Some (0, c') \<and>
                  status c' \<noteq> CPU_OK \<and> status c' \<noteq> CPU_HALTED \<and> ex = e + int 0 \<and> er = 1"
      using st err by simp
    then show ?thesis by blast
  next
    case halt
    with Suc.prems(2) st have "ex = e + 1" "er = 0" "c' = c1" by simp_all
    then have "0 < Suc n \<and> steps_ok sc 0 c = Some c \<and> fetches c 0x01 \<and>
         cpu_step sc c = Some (0, c') \<and> status c' = CPU_HALTED \<and> ex = e + int 0 + 1 \<and> er = 0"
      using st halt by simp
    then show ?thesis by blast
  qed
qed

subsection \<open>Steps stay in the buffer and keep the free slots zero\<close>

lemma operand_defined:
  assumes "wf_cpu c" and "ip_ok c"
  shows "\<exists>x. operand c 1 = Some x" and "\<exists>y. operand c 2 = Some y"
proof -
  from assms have r: "0 \<le> sint (inst_index c)" "sint (inst_index c) \<le> sint (end_of_stack c)"
    by (simp_all add: ip_ok_def word_sless_alt)
  from assms have b: "sint (end_of_stack c) + 2 < int (length (memory c))"
    "sint (end_of_stack c) + 2 < 2 ^ 31"
    by (simp_all add: wf_cpu_def)
  have "sint (inst_index c + 1) = sint (inst_index c) + 1"
    using r b sint_add_no_wrap [of "inst_index c" 1] by simp
  then show "\<exists>x. operand c 1 = Some x"
    using r b by (simp add: operand_def mem_read_def)
  have "sint (inst_index c + 2) = sint (inst_index c) + 2"
    using r b sint_add_no_wrap [of "inst_index c" 2] by simp
  then show "\<exists>y. operand c 2 = Some y"
    using r b by (simp add: operand_def mem_read_def)
qed

lemma fetch_defined:
  assumes "wf_cpu c" and "ip_ok c"
  shows "\<exists>w. mem_read (memory c) (sint (inst_index c)) = Some w"
  using assms by (simp add: wf_cpu_def ip_ok_def word_sless_alt mem_read_def)
lemma same_stack_wf:
  "same_stack c c1 \<Longrightarrow> wf_cpu c \<Longrightarrow> wf_cpu c1"
  "same_stack c c1 \<Longrightarrow> free_slots_zero c \<Longrightarrow> free_slots_zero c1"
  by (simp_all add: same_stack_def wf_cpu_def free_slots_zero_def)

lemma plain_handlers:
  assumes "operand c 1 = Some x" and "operand c 2 = Some y"
  shows "\<exists>r c1. execute_nop c = Some (r, c1) \<and> same_stack c c1"
    and "\<exists>r c1. execute_halt c = Some (r, c1) \<and> same_stack c c1"
    and "\<exists>r c1. execute_add c = Some (r, c1) \<and> same_stack c c1"
    and "\<exists>r c1. execute_sub c = Some (r, c1) \<and> same_stack c c1"
    and "\<exists>r c1. execute_mul c = Some (r, c1) \<and> same_stack c c1"
    and "\<exists>r c1. execute_inc c = Some (r, c1) \<and> same_stack c c1"
    and "\<exists>r c1. execute_dec c = Some (r, c1) \<and> same_stack c c1"
    and "\<exists>r c1. execute_loop c = Some (r, c1) \<and> same_stack c c1"
    and "\<exists>r c1. execute_movr c = Some (r, c1) \<and> same_stack c c1"
    and "\<exists>r c1. execute_in sc c = Some (r, c1) \<and> same_stack c c1"
    and "\<exists>r c1. execute_get c = Some (r, c1) \<and> same_stack c c1"
    and "\<exists>r c1. execute_out c = Some (r, c1) \<and> same_stack c c1"
    and "\<exists>r c1. execute_put c = Some (r, c1) \<and> same_stack c c1"
    and "\<exists>r c1. execute_swap c = Some (r, c1) \<and> same_stack c c1"
    and "\<exists>r c1. execute_cmp c = Some (r, c1) \<and> same_stack c c1"
    and "\<exists>r c1. execute_jmp c = Some (r, c1) \<and> same_stack c c1"
    and "\<exists>r c1. execute_jz c = Some (r, c1) \<and> same_stack c c1"
    and "\<exists>r c1. execute_jnz c = Some (r, c1) \<and> same_stack c c1"
    and "\<exists>r c1. execute_jgt c = Some (r, c1) \<and> same_stack c c1"
  using assms
  by (auto simp add: same_stack_def execute_nop_def execute_halt_def execute_add_def
      execute_sub_def execute_mul_def execute_inc_def execute_dec_def
      execute_loop_def execute_movr_def execute_in_def execute_get_def execute_out_def
      execute_put_def execute_swap_def execute_cmp_def execute_jmp_def execute_jz_def
      execute_jnz_def execute_jgt_def is_valid_reg_def advance_def cpu_set_register_def
      Let_def split: prod.splits option.splits list.splits)

text \<open>
  \<^verbatim>\<open>DIV\<close> keeps memory and stack too, unless it divides \<open>- 2 ^ 31\<close> by \<open>- 1\<close>.
\<close>

lemma div_handler:
  assumes "operand c 1 = Some x"
  shows "(execute_div c = None \<and> \<not> x <s 0 \<and> \<not> 4 <s x \<and>
            sint (registers c REGISTER_A) = - (2 ^ 31) \<and>
            sint (registers c (reg_of x)) = - 1) \<or>
         (\<exists>r c1. execute_div c = Some (r, c1) \<and> same_stack c c1)"
  using assms
  by (auto simp add: same_stack_def execute_div_def div32_def is_valid_reg_def advance_def
      cpu_set_register_def Let_def)

lemma advance_fields [simp]:
  "memory (advance c k) = memory c" "stack_bottom (advance c k) = stack_bottom c"
  "stack_capacity (advance c k) = stack_capacity c" "stack_size (advance c k) = stack_size c"
  "end_of_stack (advance c k) = end_of_stack c" "registers (advance c k) = registers c"
  by (simp_all add: advance_def)

lemma same_stack_advance [simp]:
  "same_stack c (advance c k)" "same_stack c ((advance c k)\<lparr>status := s\<rparr>)"
  by (simp_all add: same_stack_def)

lemma stack_addr_advance [simp]: "stack_addr (advance c k) j = stack_addr c j"
  by (simp add: stack_addr_def)

text \<open>The address of a slot, counted from the stack bottom.\<close>

lemma slot_addr:
  assumes "wf_cpu c" and "0 \<le> sint j" and "sint j < int (stack_capacity c)"
  shows "stack_addr c (- j) = int (stack_bottom c - nat (sint j))"
    and "stack_bottom c - nat (sint j) < length (memory c)"
    and "nat (sint j) \<le> stack_bottom c"
proof -
  have n: "sint (- j) = - sint j"
    using assms(2) by (intro sint_neg_no_wrap) simp
  have le: "nat (sint j) \<le> stack_bottom c"
    using assms unfolding wf_cpu_def by linarith
  then show "stack_addr c (- j) = int (stack_bottom c - nat (sint j))"
    using assms(2) n by (simp add: stack_addr_def)
  show "stack_bottom c - nat (sint j) < length (memory c)"
    using assms(1) unfolding wf_cpu_def by linarith
  show "nat (sint j) \<le> stack_bottom c" by (rule le)
qed

lemma free_slots_zero_nth:
  assumes "wf_cpu c"
  shows "free_slots_zero c \<longleftrightarrow>
           (\<forall>k. nat (sint (stack_size c)) \<le> k \<and> k < stack_capacity c \<longrightarrow>
                memory c ! (stack_bottom c - k) = 0)"
proof -
  have "mem_read (memory c) (int (stack_bottom c) - int k) = Some (memory c ! (stack_bottom c - k))"
    if "k < stack_capacity c" for k
  proof -
    from that assms have le: "k \<le> stack_bottom c" and lt: "stack_bottom c < length (memory c)"
      unfolding wf_cpu_def by linarith+
    from le have e: "int (stack_bottom c) - int k = int (stack_bottom c - k)" by linarith
    from lt have "stack_bottom c - k < length (memory c)" by linarith
    then show ?thesis unfolding e by (simp add: mem_read_def)
  qed
  then show ?thesis by (auto simp add: free_slots_zero_def list_all_iff)
qed

lemma grow_stack:
  assumes wf: "wf_cpu c" and room: "sint (stack_size c) < int (stack_capacity c)"
    and m: "memory c1 = (memory c)[stack_bottom c - nat (sint (stack_size c)) := v]"
    and s: "stack_size c1 = stack_size c + 1"
    and f: "stack_bottom c1 = stack_bottom c" "stack_capacity c1 = stack_capacity c"
      "end_of_stack c1 = end_of_stack c"
  shows "wf_cpu c1 \<and> (free_slots_zero c \<longrightarrow> free_slots_zero c1)"
proof -
  from wf have b: "0 \<le> sint (stack_size c)" "stack_capacity c < 2 ^ 31"
    "stack_capacity c \<le> Suc (stack_bottom c)"
    by (simp_all add: wf_cpu_def)
  have s1: "sint (stack_size c1) = sint (stack_size c) + 1"
    unfolding s using b room by (intro sint_add_no_wrap [of "stack_size c" 1, simplified]) simp_all
  have w: "wf_cpu c1"
    using wf room s1 m f by (simp add: wf_cpu_def)
  have z: "free_slots_zero c1" if fz: "free_slots_zero c"
    unfolding free_slots_zero_nth [OF w]
  proof (intro allI impI)
    fix k assume k: "nat (sint (stack_size c1)) \<le> k \<and> k < stack_capacity c1"
    then have k': "nat (sint (stack_size c)) \<le> k \<and> k < stack_capacity c"
      and ne: "k \<noteq> nat (sint (stack_size c))"
      using s1 f b by auto
    from fz k' have "memory c ! (stack_bottom c - k) = 0"
      unfolding free_slots_zero_nth [OF wf] by blast
    moreover have "stack_bottom c - k \<noteq> stack_bottom c - nat (sint (stack_size c))"
      using k' ne b by auto
    ultimately show "memory c1 ! (stack_bottom c1 - k) = 0"
      unfolding m f by simp
  qed
  from w z show ?thesis by blast
qed


lemma shrink_stack:
  assumes wf: "wf_cpu c" and pos: "0 < sint (stack_size c)"
    and m: "memory c1 = (memory c)[stack_bottom c - nat (sint (stack_size c - 1)) := 0]"
    and s: "stack_size c1 = stack_size c - 1"
    and f: "stack_bottom c1 = stack_bottom c" "stack_capacity c1 = stack_capacity c"
      "end_of_stack c1 = end_of_stack c"
  shows "wf_cpu c1 \<and> (free_slots_zero c \<longrightarrow> free_slots_zero c1)"
proof -
  from wf have b: "sint (stack_size c) \<le> int (stack_capacity c)" "stack_capacity c < 2 ^ 31"
    "stack_capacity c \<le> Suc (stack_bottom c)" "stack_bottom c < length (memory c)"
    by (simp_all add: wf_cpu_def)
  have s1: "sint (stack_size c - 1) = sint (stack_size c) - 1"
    using b pos by (intro sint_sub_no_wrap [of "stack_size c" 1, simplified]) simp_all
  have w: "wf_cpu c1"
    using wf pos s1 m f s by (simp add: wf_cpu_def)
  have z: "free_slots_zero c1" if fz: "free_slots_zero c"
    unfolding free_slots_zero_nth [OF w]
  proof (intro allI impI)
    fix k assume k: "nat (sint (stack_size c1)) \<le> k \<and> k < stack_capacity c1"
    show "memory c1 ! (stack_bottom c1 - k) = 0"
    proof (cases "k = nat (sint (stack_size c - 1))")
      case True
      have "stack_bottom c - k < length (memory c)" using b by linarith
      then show ?thesis unfolding m f True by simp
    next
      case False
      with k have k': "nat (sint (stack_size c)) \<le> k \<and> k < stack_capacity c"
        using s1 f s pos by auto
      from fz k' have "memory c ! (stack_bottom c - k) = 0"
        unfolding free_slots_zero_nth [OF wf] by blast
      moreover have "stack_bottom c - k \<noteq> stack_bottom c - nat (sint (stack_size c - 1))"
        using k' False b s1 pos by auto
      ultimately show ?thesis unfolding m f by simp
    qed
  qed
  from w z show ?thesis by blast
qed

lemma write_occupied:
  assumes wf: "wf_cpu c" and j: "j < nat (sint (stack_size c))"
    and m: "memory c1 = (memory c)[stack_bottom c - j := v]"
    and f: "stack_size c1 = stack_size c" "stack_bottom c1 = stack_bottom c"
      "stack_capacity c1 = stack_capacity c" "end_of_stack c1 = end_of_stack c"
  shows "wf_cpu c1 \<and> (free_slots_zero c \<longrightarrow> free_slots_zero c1)"
proof -
  from wf have b: "sint (stack_size c) \<le> int (stack_capacity c)"
    "stack_capacity c \<le> Suc (stack_bottom c)"
    by (simp_all add: wf_cpu_def)
  have w: "wf_cpu c1"
    using wf m f by (simp add: wf_cpu_def)
  have z: "free_slots_zero c1" if fz: "free_slots_zero c"
    unfolding free_slots_zero_nth [OF w]
  proof (intro allI impI)
    fix k assume k: "nat (sint (stack_size c1)) \<le> k \<and> k < stack_capacity c1"
    then have k': "nat (sint (stack_size c)) \<le> k \<and> k < stack_capacity c"
      using f by simp
    from fz k' have "memory c ! (stack_bottom c - k) = 0"
      unfolding free_slots_zero_nth [OF wf] by blast
    moreover have "stack_bottom c - k \<noteq> stack_bottom c - j"
      using k' j b by auto
    ultimately show "memory c1 ! (stack_bottom c1 - k) = 0"
      unfolding m f by simp
  qed
  from w z show ?thesis by blast
qed


lemma room_iff:
  assumes "wf_cpu c"
  shows "word_of_nat (stack_capacity c) \<le>s stack_size c \<longleftrightarrow>
           int (stack_capacity c) \<le> sint (stack_size c)"
proof -
  from assms have "stack_capacity c < 2 ^ 31" by (simp add: wf_cpu_def)
  then have "sint (word_of_nat (stack_capacity c) :: int32) = int (stack_capacity c)"
    by (rule sint_of_nat32)
  then show ?thesis by (simp add: word_sle_eq)
qed

lemma write_slot:
  assumes "wf_cpu c" and "0 \<le> sint j" and "sint j < int (stack_capacity c)"
  shows "mem_write (memory c) (stack_addr c (- j)) v =
           Some ((memory c)[stack_bottom c - nat (sint j) := v])"
    and "mem_read (memory c) (stack_addr c (- j)) =
           Some (memory c ! (stack_bottom c - nat (sint j)))"
  using slot_addr(2) [OF assms] unfolding slot_addr(1) [OF assms]
  by (simp_all add: mem_write_def mem_read_def)

lemma safe_push: "handler_safe execute_push"
  unfolding handler_safe_def
proof (intro allI impI, elim conjE)
  fix c assume wf: "wf_cpu c" and ip: "ip_ok c"
  from operand_defined(1) [OF wf ip] obtain x where x: "operand c 1 = Some x" by blast
  from wf have nn: "0 \<le> sint (stack_size c)" by (simp add: wf_cpu_def)
  let ?goal = "\<exists>r c1. execute_push c = Some (r, c1) \<and> wf_cpu c1 \<and>
                 (free_slots_zero c \<longrightarrow> free_slots_zero c1)"
  consider (bad) "x <s 0 \<or> 4 <s x"
    | (full) "\<not> (x <s 0 \<or> 4 <s x)" "word_of_nat (stack_capacity c) \<le>s stack_size c"
    | (room) "\<not> (x <s 0 \<or> 4 <s x)" "\<not> word_of_nat (stack_capacity c) \<le>s stack_size c"
    by blast
  then show ?goal
  proof cases
    case bad
    then have "execute_push c = Some (0, (advance c 1)\<lparr>status := CPU_ILLEGAL_OPERAND\<rparr>)"
      using x by (auto simp add: execute_push_def is_valid_reg_def Let_def)
    then show ?thesis
      using same_stack_wf [OF same_stack_advance(2), of c] wf by auto
  next
    case full
    then have "execute_push c =
        Some (0, (advance c 1)\<lparr>status := CPU_INVALID_STACK_OPERATION\<rparr>)"
      using x by (auto simp add: execute_push_def is_valid_reg_def Let_def
          cpu_get_stack_size_def)
    then show ?thesis
      using same_stack_wf [OF same_stack_advance(2), of c] wf by auto
  next
    case room
    from room(2) have lt: "sint (stack_size c) < int (stack_capacity c)"
      unfolding room_iff [OF wf] by simp
    let ?c1 = "(advance c 1)\<lparr>memory := (memory c)
                   [stack_bottom c - nat (sint (stack_size c)) := registers c (reg_of x)],
                 stack_size := stack_size c + 1, status := CPU_OK\<rparr>"
    have "execute_push c = Some (1, ?c1)"
      using x room write_slot(1) [OF wf nn lt]
      by (auto simp add: execute_push_def is_valid_reg_def Let_def cpu_get_stack_size_def)
    moreover have "wf_cpu ?c1 \<and> (free_slots_zero c \<longrightarrow> free_slots_zero ?c1)"
      by (rule grow_stack [OF wf lt]) simp_all
    ultimately show ?thesis by blast
  qed
qed


lemma safe_call: "handler_safe execute_call"
  unfolding handler_safe_def
proof (intro allI impI, elim conjE)
  fix c assume wf: "wf_cpu c" and ip: "ip_ok c"
  from operand_defined [OF wf ip] obtain x y
    where x: "operand c 1 = Some x" and y: "operand c 2 = Some y" by blast
  from wf have nn: "0 \<le> sint (stack_size c)" by (simp add: wf_cpu_def)
  show "\<exists>r c1. execute_call c = Some (r, c1) \<and> wf_cpu c1 \<and>
                 (free_slots_zero c \<longrightarrow> free_slots_zero c1)"
  proof (cases "word_of_nat (stack_capacity c) \<le>s stack_size c")
    case True
    then have "execute_call c =
        Some (0, (advance c 2)\<lparr>status := CPU_INVALID_STACK_OPERATION\<rparr>)"
      using x y by (auto simp add: execute_call_def Let_def cpu_get_stack_size_def)
    then show ?thesis
      using same_stack_wf [OF same_stack_advance(2), of c] wf by auto
  next
    case False
    then have lt: "sint (stack_size c) < int (stack_capacity c)"
      unfolding room_iff [OF wf] by simp
    let ?c1 = "(advance c 2)\<lparr>memory := (memory c)
                   [stack_bottom c - nat (sint (stack_size c)) := y],
                 stack_size := stack_size c + 1, status := CPU_OK, inst_index := x - 1\<rparr>"
    have "execute_call c = Some (1, ?c1)"
      using x y False write_slot(1) [OF wf nn lt]
      by (auto simp add: execute_call_def Let_def cpu_get_stack_size_def)
    moreover have "wf_cpu ?c1 \<and> (free_slots_zero c \<longrightarrow> free_slots_zero ?c1)"
      by (rule grow_stack [OF wf lt]) simp_all
    ultimately show ?thesis by blast
  qed
qed

lemma top_slot:
  assumes wf: "wf_cpu c" and pos: "0 < sint (stack_size c)"
  shows "0 \<le> sint (stack_size c - 1)" and "sint (stack_size c - 1) < int (stack_capacity c)"
proof -
  from wf have b: "sint (stack_size c) \<le> int (stack_capacity c)" "stack_capacity c < 2 ^ 31"
    by (simp_all add: wf_cpu_def)
  have s1: "sint (stack_size c - 1) = sint (stack_size c) - 1"
    using b pos by (intro sint_sub_no_wrap [of "stack_size c" 1, simplified]) simp_all
  show "0 \<le> sint (stack_size c - 1)" "sint (stack_size c - 1) < int (stack_capacity c)"
    using s1 pos b by simp_all
qed

lemma safe_ret: "handler_safe execute_ret"
  unfolding handler_safe_def
proof (intro allI impI, elim conjE)
  fix c assume wf: "wf_cpu c" and ip: "ip_ok c"
  from wf have nn: "0 \<le> sint (stack_size c)" by (simp add: wf_cpu_def)
  show "\<exists>r c1. execute_ret c = Some (r, c1) \<and> wf_cpu c1 \<and>
                 (free_slots_zero c \<longrightarrow> free_slots_zero c1)"
  proof (cases "stack_size c = 0")
    case True
    then have "execute_ret c = Some (0, c\<lparr>status := CPU_INVALID_STACK_OPERATION\<rparr>)"
      by (simp add: execute_ret_def cpu_get_stack_size_def)
    moreover have "same_stack c (c\<lparr>status := CPU_INVALID_STACK_OPERATION\<rparr>)"
      by (simp add: same_stack_def)
    ultimately show ?thesis using same_stack_wf wf by metis
  next
    case False
    then have "sint (stack_size c) \<noteq> 0" by (metis signed_0 signed_word_eqI)
    with nn have pos: "0 < sint (stack_size c)" by simp
    let ?i = "stack_bottom c - nat (sint (stack_size c - 1))"
    let ?c1 = "c\<lparr>memory := (memory c)[?i := 0], inst_index := memory c ! ?i - 1,
                  stack_size := stack_size c - 1, status := CPU_OK\<rparr>"
    have "execute_ret c = Some (1, ?c1)"
      using False write_slot [OF wf top_slot [OF wf pos]]
      by (simp add: execute_ret_def cpu_get_stack_size_def)
    moreover have "wf_cpu ?c1 \<and> (free_slots_zero c \<longrightarrow> free_slots_zero ?c1)"
      by (rule shrink_stack [OF wf pos]) simp_all
    ultimately show ?thesis by blast
  qed
qed

lemma safe_pop: "handler_safe execute_pop"
  unfolding handler_safe_def
proof (intro allI impI, elim conjE)
  fix c assume wf: "wf_cpu c" and ip: "ip_ok c"
  from operand_defined(1) [OF wf ip] obtain x where x: "operand c 1 = Some x" by blast
  let ?goal = "\<exists>r c1. execute_pop c = Some (r, c1) \<and> wf_cpu c1 \<and>
                 (free_slots_zero c \<longrightarrow> free_slots_zero c1)"
  consider (bad) "x <s 0 \<or> 4 <s x"
    | (empty) "\<not> (x <s 0 \<or> 4 <s x)" "stack_size c \<le>s 0"
    | (top) "\<not> (x <s 0 \<or> 4 <s x)" "\<not> stack_size c \<le>s 0"
    by blast
  then show ?goal
  proof cases
    case bad
    then have "execute_pop c = Some (0, (advance c 1)\<lparr>status := CPU_ILLEGAL_OPERAND\<rparr>)"
      using x by (auto simp add: execute_pop_def is_valid_reg_def Let_def)
    then show ?thesis
      using same_stack_wf [OF same_stack_advance(2), of c] wf by auto
  next
    case empty
    then have "execute_pop c =
        Some (0, (advance c 1)\<lparr>status := CPU_INVALID_STACK_OPERATION\<rparr>)"
      using x by (auto simp add: execute_pop_def is_valid_reg_def Let_def
          cpu_get_stack_size_def)
    then show ?thesis
      using same_stack_wf [OF same_stack_advance(2), of c] wf by auto
  next
    case top
    then have pos: "0 < sint (stack_size c)" by (simp add: word_sle_eq)
    let ?i = "stack_bottom c - nat (sint (stack_size c - 1))"
    let ?c1 = "(cpu_set_register (advance c 1) (reg_of x) (memory c ! ?i))
                 \<lparr>memory := (memory c)[?i := 0], stack_size := stack_size c - 1,
                  status := CPU_OK\<rparr>"
    have "execute_pop c = Some (1, ?c1)"
      using x top write_slot [OF wf top_slot [OF wf pos]]
      by (auto simp add: execute_pop_def is_valid_reg_def Let_def cpu_get_stack_size_def
          cpu_set_register_def stack_addr_def)
    moreover have "wf_cpu ?c1 \<and> (free_slots_zero c \<longrightarrow> free_slots_zero ?c1)"
      by (rule shrink_stack [OF wf pos]) (simp_all add: cpu_set_register_def)
    ultimately show ?thesis by blast
  qed
qed


text \<open>The slot that \<^verbatim>\<open>LOAD\<close> and \<^verbatim>\<open>STORE\<close> address lies below the top of the stack.\<close>

lemma stack_index_range:
  assumes wf: "wf_cpu c" and t: "\<not> t <s 0"
    and lo: "\<not> (stack_size c - t - 1) <s 0"
  shows "sint (stack_size c - t - 1) < sint (stack_size c)"
    and "0 \<le> sint (stack_size c - t - 1)"
    and "sint (stack_size c - t - 1) < int (stack_capacity c)"
proof -
  from wf have b: "0 \<le> sint (stack_size c)" "sint (stack_size c) \<le> int (stack_capacity c)"
    "stack_capacity c < 2 ^ 31"
    by (simp_all add: wf_cpu_def)
  from t have t0: "0 \<le> sint t" by (simp add: word_sless_alt)
  have d: "sint (stack_size c - t) = sint (stack_size c) - sint t"
    using b t0 sint_range32 [of t] sint_range32 [of "stack_size c"]
    by (intro sint_sub_no_wrap) linarith+
  have "sint (stack_size c - t - 1) = sint (stack_size c - t) - 1"
    using b t0 sint_range32 [of t] sint_range32 [of "stack_size c"] d
    by (intro sint_sub_no_wrap [of "stack_size c - t" 1, simplified]) simp_all
  with d have e: "sint (stack_size c - t - 1) = sint (stack_size c) - sint t - 1" by simp
  show "sint (stack_size c - t - 1) < sint (stack_size c)" using e t0 by simp
  then show "sint (stack_size c - t - 1) < int (stack_capacity c)" using b by simp
  show "0 \<le> sint (stack_size c - t - 1)" using lo by (simp add: word_sless_alt)
qed

lemma safe_load: "handler_safe execute_load"
  unfolding handler_safe_def
proof (intro allI impI, elim conjE)
  fix c assume wf: "wf_cpu c" and ip: "ip_ok c"
  from operand_defined [OF wf ip] obtain x y
    where x: "operand c 1 = Some x" and y: "operand c 2 = Some y" by blast
  define t where "t = registers c REGISTER_D + y"
  define si where "si = stack_size c - t - 1"
  let ?goal = "\<exists>r c1. execute_load c = Some (r, c1) \<and> wf_cpu c1 \<and>
                 (free_slots_zero c \<longrightarrow> free_slots_zero c1)"
  consider (bad) "x <s 0 \<or> 4 <s x"
    | (neg) "\<not> (x <s 0 \<or> 4 <s x)" "t <s 0"
    | (out) "\<not> (x <s 0 \<or> 4 <s x)" "\<not> t <s 0" "stack_size c <s si \<or> si <s 0 \<or> stack_size c = 0"
    | (slot) "\<not> (x <s 0 \<or> 4 <s x)" "\<not> t <s 0"
        "\<not> (stack_size c <s si \<or> si <s 0 \<or> stack_size c = 0)"
    by blast
  then show ?goal
  proof cases
    case bad
    then have "execute_load c = Some (0, (advance c 2)\<lparr>status := CPU_ILLEGAL_OPERAND\<rparr>)"
      using x y by (auto simp add: execute_load_def is_valid_reg_def Let_def)
    then show ?thesis
      using same_stack_wf [OF same_stack_advance(2), of c] wf by auto
  next
    case neg
    then have "execute_load c =
        Some (0, (advance c 2)\<lparr>status := CPU_INVALID_STACK_OPERATION\<rparr>)"
      using x y by (auto simp add: execute_load_def is_valid_reg_def Let_def t_def)
    then show ?thesis
      using same_stack_wf [OF same_stack_advance(2), of c] wf by auto
  next
    case out
    then have "execute_load c =
        Some (0, (advance c 2)\<lparr>status := CPU_INVALID_STACK_OPERATION\<rparr>)"
      using x y by (auto simp add: execute_load_def is_valid_reg_def Let_def t_def si_def
          cpu_get_stack_size_def)
    then show ?thesis
      using same_stack_wf [OF same_stack_advance(2), of c] wf by auto
  next
    case slot
    from slot(3) have lo: "\<not> (stack_size c - t - 1) <s 0" by (simp add: si_def)
    note r = stack_index_range [OF wf slot(2) lo]
    let ?c1 = "(cpu_set_register (advance c 2) (reg_of x)
                  (memory c ! (stack_bottom c - nat (sint si))))\<lparr>status := CPU_OK\<rparr>"
    have "execute_load c = Some (1, ?c1)"
      using x y slot write_slot(2) [OF wf r(2,3)]
      by (auto simp add: execute_load_def is_valid_reg_def Let_def t_def si_def
          cpu_get_stack_size_def)
    moreover have "same_stack c ?c1"
      by (simp add: same_stack_def cpu_set_register_def)
    ultimately show ?thesis using same_stack_wf wf by metis
  qed
qed

lemma safe_store: "handler_safe execute_store"
  unfolding handler_safe_def
proof (intro allI impI, elim conjE)
  fix c assume wf: "wf_cpu c" and ip: "ip_ok c"
  from operand_defined [OF wf ip] obtain x y
    where x: "operand c 1 = Some x" and y: "operand c 2 = Some y" by blast
  define t where "t = registers c REGISTER_D + y"
  define si where "si = stack_size c - t - 1"
  have si': "stack_size c - registers c REGISTER_D - y - 1 =
               stack_size c - (registers c REGISTER_D + y) - 1"
    by simp
  let ?goal = "\<exists>r c1. execute_store c = Some (r, c1) \<and> wf_cpu c1 \<and>
                 (free_slots_zero c \<longrightarrow> free_slots_zero c1)"
  consider (bad) "x <s 0 \<or> 4 <s x"
    | (neg) "\<not> (x <s 0 \<or> 4 <s x)" "t <s 0"
    | (out) "\<not> (x <s 0 \<or> 4 <s x)" "\<not> t <s 0" "stack_size c <s si \<or> si <s 0 \<or> stack_size c = 0"
    | (slot) "\<not> (x <s 0 \<or> 4 <s x)" "\<not> t <s 0"
        "\<not> (stack_size c <s si \<or> si <s 0 \<or> stack_size c = 0)"
    by blast
  then show ?goal
  proof cases
    case bad
    then have "execute_store c = Some (0, (advance c 2)\<lparr>status := CPU_ILLEGAL_OPERAND\<rparr>)"
      using x y by (auto simp add: execute_store_def is_valid_reg_def Let_def)
    then show ?thesis
      using same_stack_wf [OF same_stack_advance(2), of c] wf by auto
  next
    case neg
    then have "execute_store c =
        Some (0, (advance c 2)\<lparr>status := CPU_INVALID_STACK_OPERATION\<rparr>)"
      using x y by (auto simp add: execute_store_def is_valid_reg_def Let_def t_def)
    then show ?thesis
      using same_stack_wf [OF same_stack_advance(2), of c] wf by auto
  next
    case out
    then have "execute_store c =
        Some (0, (advance c 2)\<lparr>status := CPU_INVALID_STACK_OPERATION\<rparr>)"
      using x y by (auto simp add: execute_store_def is_valid_reg_def Let_def t_def si_def
          cpu_get_stack_size_def si')
    then show ?thesis
      using same_stack_wf [OF same_stack_advance(2), of c] wf by auto
  next
    case slot
    from slot(3) have lo: "\<not> (stack_size c - t - 1) <s 0" by (simp add: si_def)
    note r = stack_index_range [OF wf slot(2) lo]
    let ?c1 = "(advance c 2)\<lparr>memory := (memory c)
                   [stack_bottom c - nat (sint si) := registers c (reg_of x)],
                 status := CPU_OK\<rparr>"
    have "execute_store c = Some (1, ?c1)"
      using x y slot write_slot(1) [OF wf r(2,3)]
      by (auto simp add: execute_store_def is_valid_reg_def Let_def t_def si_def
          cpu_get_stack_size_def cpu_get_register_def si')
    moreover have "wf_cpu ?c1 \<and> (free_slots_zero c \<longrightarrow> free_slots_zero ?c1)"
    proof (rule write_occupied [OF wf])
      show "nat (sint si) < nat (sint (stack_size c))"
        using r(1,2) by (simp add: si_def)
    qed simp_all
    ultimately show ?thesis by blast
  qed
qed
lemma plain_safe:
  assumes "\<And>c x y. operand c 1 = Some x \<Longrightarrow> operand c 2 = Some y \<Longrightarrow>
             \<exists>r c1. h c = Some (r, c1) \<and> same_stack c c1"
  shows "handler_safe h"
  unfolding handler_safe_def
proof (intro allI impI, elim conjE)
  fix c assume wf: "wf_cpu c" and ip: "ip_ok c"
  from operand_defined [OF wf ip] obtain x y
    where "operand c 1 = Some x" and "operand c 2 = Some y" by blast
  from assms [OF this] obtain r c1 where "h c = Some (r, c1)" and "same_stack c c1" by blast
  then show "\<exists>r c1. h c = Some (r, c1) \<and> wf_cpu c1 \<and>
                 (free_slots_zero c \<longrightarrow> free_slots_zero c1)"
    using same_stack_wf wf by blast
qed

lemma safe_table:
  assumes "find_instruction w (instructions sc) = Some h" and "w \<noteq> 0x05"
  shows "handler_safe h"
  using table_cases [OF assms(1)] assms(2)
  by (elim disjE conjE)
     (simp_all add: safe_push safe_pop safe_call safe_ret safe_load safe_store
        plain_safe [OF plain_handlers(1)] plain_safe [OF plain_handlers(2)]
        plain_safe [OF plain_handlers(3)] plain_safe [OF plain_handlers(4)]
        plain_safe [OF plain_handlers(5)] plain_safe [OF plain_handlers(6)]
        plain_safe [OF plain_handlers(7)] plain_safe [OF plain_handlers(8)]
        plain_safe [OF plain_handlers(9)] plain_safe [OF plain_handlers(10)]
        plain_safe [OF plain_handlers(11)] plain_safe [OF plain_handlers(12)]
        plain_safe [OF plain_handlers(13)] plain_safe [OF plain_handlers(14)]
        plain_safe [OF plain_handlers(15)] plain_safe [OF plain_handlers(16)]
        plain_safe [OF plain_handlers(17)] plain_safe [OF plain_handlers(18)]
        plain_safe [OF plain_handlers(19)])

text \<open>
  A step of a well-formed machine returns, with a well-formed machine whose free slots
  are zero if they were, unless it divides \<open>- 2 ^ 31\<close> by \<open>- 1\<close>.
\<close>

lemma cpu_step_wf:
  assumes wf: "wf_cpu c"
  shows "(cpu_step sc c = None \<and> div_traps c) \<or>
         (\<exists>r c1. cpu_step sc c = Some (r, c1) \<and> (r = 0 \<or> r = 1) \<and> wf_cpu c1 \<and>
            (free_slots_zero c \<longrightarrow> free_slots_zero c1))"
proof (cases "status c \<noteq> CPU_OK")
  case True
  then have "cpu_step sc c = Some (0, c)" by (simp add: cpu_step_def)
  with wf show ?thesis by simp
next
  case ok: False
  show ?thesis
  proof (cases "ip_ok c")
    case False
    then have "cpu_step sc c = Some (0, c\<lparr>status := CPU_INVALID_ADDRESS\<rparr>)"
      using ok by (auto simp add: cpu_step_def ip_ok_def)
    moreover have "same_stack c (c\<lparr>status := CPU_INVALID_ADDRESS\<rparr>)"
      by (simp add: same_stack_def)
    ultimately show ?thesis using same_stack_wf wf by metis
  next
    case True
    from fetch_defined [OF wf True] obtain w
      where w: "mem_read (memory c) (sint (inst_index c)) = Some w" by blast
    with ok True have f: "fetches c w" by (simp add: fetches_def ip_ok_def)
    show ?thesis
    proof (cases "find_instruction w (instructions sc)")
      case None
      then have "cpu_step sc c = Some (0, c\<lparr>status := CPU_ILLEGAL_INSTRUCTION\<rparr>)"
        using f by (simp add: cpu_step_def fetches_def)
      moreover have "same_stack c (c\<lparr>status := CPU_ILLEGAL_INSTRUCTION\<rparr>)"
        by (simp add: same_stack_def)
      ultimately show ?thesis using same_stack_wf wf by metis
    next
      case (Some h)
      have step: ?thesis
        if h: "h c = Some (e, c0)" and w0: "wf_cpu c0"
          and z0: "free_slots_zero c \<longrightarrow> free_slots_zero c0" for e c0
      proof -
        have s: "same_stack c0 (c0\<lparr>inst_index := inst_index c0 + 1\<rparr>)"
          by (simp add: same_stack_def)
        have "cpu_step sc c =
                (if e = 0 then Some (0, c0)
                 else Some (1, c0\<lparr>inst_index := inst_index c0 + 1\<rparr>))"
          unfolding cpu_step_dispatch [OF f Some] h by simp
        then show ?thesis
          using w0 z0 same_stack_wf [OF s] by (cases "e = 0") auto
      qed
      show ?thesis
      proof (cases "w = 0x05")
        case False
        from safe_table [OF Some False] wf True obtain e c0
          where "h c = Some (e, c0)" and "wf_cpu c0"
            and "free_slots_zero c \<longrightarrow> free_slots_zero c0"
          unfolding handler_safe_def by blast
        then show ?thesis by (rule step)
      next
        case five: True
        with Some have hd: "h = execute_div" by (simp add: find_div)
        from operand_defined(1) [OF wf True] obtain x where x: "operand c 1 = Some x"
          by blast
        from div_handler [OF x] show ?thesis
        proof (elim disjE exE conjE)
          assume n: "execute_div c = None" and v: "\<not> x <s 0" "\<not> 4 <s x"
            and t: "sint (registers c REGISTER_A) = - (2 ^ 31)"
              "sint (registers c (reg_of x)) = - 1"
          have "cpu_step sc c = None"
            unfolding cpu_step_dispatch [OF f Some] hd n by simp
          moreover have "div_traps c"
            using f five x v t by (simp add: div_traps_def)
          ultimately show ?thesis by blast
        next
          fix e c0
          assume "execute_div c = Some (e, c0)" and "same_stack c c0"
          then show ?thesis
            using step [of e c0] hd same_stack_wf wf by blast
        qed
      qed
    qed
  qed
qed

text \<open>
  So does a run: it returns unless one of its steps reaches that division.
\<close>

lemma run_loop_wf:
  assumes "wf_cpu c"
  shows "(run_loop sc n c e = None \<and>
            (\<exists>k c1. k < n \<and> steps_ok sc k c = Some c1 \<and> div_traps c1)) \<or>
         (\<exists>ex er c1. run_loop sc n c e = Some (ex, er, c1) \<and> wf_cpu c1 \<and>
            (free_slots_zero c \<longrightarrow> free_slots_zero c1))"
  using assms
proof (induction n arbitrary: c e)
  case 0
  then show ?case by simp
next
  case (Suc n)
  let ?goal = ?case
  from cpu_step_wf [OF Suc.prems, of sc]
  consider (trap) "cpu_step sc c = None" "div_traps c"
    | (stepped) r c1 where "cpu_step sc c = Some (r, c1)" "r = 0 \<or> r = 1" "wf_cpu c1"
        "free_slots_zero c \<longrightarrow> free_slots_zero c1"
    by auto
  then show ?goal
  proof cases
    case trap
    then have "run_loop sc (Suc n) c e = None \<and>
                 0 < Suc n \<and> steps_ok sc 0 c = Some c \<and> div_traps c"
      by simp
    then show ?goal by blast
  next
    case stepped
    note st = stepped(1) and r = stepped(2) and w1 = stepped(3) and z1 = stepped(4)
    show ?goal
    proof (cases "status c1 = CPU_HALTED \<or> r = 0")
      case True
      then show ?goal using st w1 z1 by auto
    next
      case False
      with r have r1: "r = 1" by simp
      from False st have rl: "run_loop sc (Suc n) c e = run_loop sc n c1 (e + 1)" by simp
      from Suc.IH [OF w1, of "e + 1"]
      consider (trap1) k c2 where "run_loop sc n c1 (e + 1) = None" "k < n"
          "steps_ok sc k c1 = Some c2" "div_traps c2"
        | (returned) ex er c2 where "run_loop sc n c1 (e + 1) = Some (ex, er, c2)"
            "wf_cpu c2" "free_slots_zero c1 \<longrightarrow> free_slots_zero c2"
        by auto
      then show ?goal
      proof cases
        case trap1
        then have "run_loop sc (Suc n) c e = None \<and>
                     Suc k < Suc n \<and> steps_ok sc (Suc k) c = Some c2 \<and> div_traps c2"
          using rl st r1 by simp
        then show ?goal by blast
      next
        case returned
        then show ?goal using rl z1 by auto
      qed
    qed
  qed
qed

lemma cpu_run_wf:
  assumes "wf_cpu c"
  shows "(cpu_run sc c n = None \<and>
            (\<exists>k c1. k < n \<and> steps_ok sc k c = Some c1 \<and> div_traps c1)) \<or>
         (\<exists>ret c1. cpu_run sc c n = Some (ret, c1) \<and> wf_cpu c1 \<and>
            (free_slots_zero c \<longrightarrow> free_slots_zero c1))"
proof (cases "status c = CPU_OK")
  case False
  with assms show ?thesis by (simp add: cpu_run_def)
next
  case True
  from run_loop_wf [OF assms, of sc n 0] show ?thesis
  proof (elim disjE exE conjE)
    fix k c1
    assume "run_loop sc n c 0 = None" and "k < n" and "steps_ok sc k c = Some c1"
      and "div_traps c1"
    then have "cpu_run sc c n = None \<and> k < n \<and> steps_ok sc k c = Some c1 \<and> div_traps c1"
      using True by (simp add: cpu_run_def)
    then show ?thesis by blast
  next
    fix ex er c1
    assume "run_loop sc n c 0 = Some (ex, er, c1)" and "wf_cpu c1"
      and "free_slots_zero c \<longrightarrow> free_slots_zero c1"
    then show ?thesis using True by (simp add: cpu_run_def)
  qed
qed

subsection \<open>The loader and \<^verbatim>\<open>cpu_reset\<close>\<close>

lemma zero_words_nth:
  assumes "zero_words m from n = Some m'"
  shows "length m' = length m \<and>
         (\<forall>i < length m. m' ! i = (if from \<le> int i \<and> int i < from + int n then 0 else m ! i))"
proof (cases "n = 0")
  case True
  then show ?thesis using assms by (auto simp add: zero_words_def)
next
  case False
  with assms have b: "0 \<le> from" "from + int n \<le> int (length m)"
    and m': "m' = take (nat from) m @ replicate n 0 @ drop (nat from + n) m"
    by (simp_all add: zero_words_def split: if_splits)
  have len: "length m' = length m" using b m' by simp
  have "m' ! i = (if from \<le> int i \<and> int i < from + int n then 0 else m ! i)"
    if "i < length m" for i
    using that b unfolding m'
    by (auto simp add: nth_append min_def)
  with len show ?thesis by simp
qed

text \<open>
  What \<^verbatim>\<open>cpu_reset\<close> does, for every machine: registers, stack size and status are
  reset, and in memory exactly the words from \<^verbatim>\<open>stack_bottom - stack_capacity\<close> up to
  the word before \<^verbatim>\<open>stack_bottom\<close> are zeroed. The word \<^verbatim>\<open>stack_bottom\<close> points to, the
  first slot a push writes, keeps its value.
\<close>

lemma cpu_reset_effect:
  assumes "cpu_reset c = Some c'"
  shows "c' = c\<lparr>registers := (\<lambda>_. 0), stack_size := 0, status := CPU_OK, memory := memory c'\<rparr> \<and>
         length (memory c') = length (memory c) \<and>
         (\<forall>i < length (memory c).
            memory c' ! i =
              (if int (stack_bottom c) - int (stack_capacity c) \<le> int i \<and> i < stack_bottom c
               then 0 else memory c ! i))"
proof -
  from assms obtain m where
    z: "zero_words (memory c) (int (stack_bottom c) - int (stack_capacity c)) (stack_capacity c)
          = Some m"
    and c': "c' = c\<lparr>registers := (\<lambda>_. 0), stack_size := 0, status := CPU_OK, memory := m\<rparr>"
    by (auto simp add: cpu_reset_def split: option.splits)
  from zero_words_nth [OF z] c' show ?thesis by auto
qed

lemma push_demo_step: "cpu_step no_input push_demo = Some (1, pushed_demo)"
proof -
  have f: "fetches push_demo 0x11"
    by (simp add: push_demo_def demo_defs)
  show ?thesis
    by (simp add: cpu_step_dispatch [OF f] find_entries execute_push_def)
       (simp add: push_demo_def pushed_demo_def demo_defs advance_def is_valid_reg_def
          cpu_get_stack_size_def mem_write_def reg_of_def)
qed

lemma reset_demo_eval: "cpu_reset pushed_demo = Some reset_demo"
  apply (simp add: cpu_reset_def zero_words_def pushed_demo_def push_demo_def reset_demo_def demo_defs)
  apply (rule nth_equalityI)
   apply (auto simp add: nth_append nth_list_update min_def)
  done

lemma full_demo_reset: "cpu_reset full_demo = Some full_reset"
  by (simp add: full_demo_def full_reset_def cpu_reset_def zero_words_def cpu_create_def)

lemma load_empty:
  "cpu_create_memory 1024 junk_demo [] 4 =
     Inr (replicate 256 0 @ map junk_demo [256 ..< 1024], 1023)"
  by (simp add: cpu_create_memory_def BLOCK_SIZE_def grow_for_stack.simps [of _ _ 1024]
      del: upt_rec_numeral)

text \<open>The reading loop: the number of bytes of the last, incomplete word.\<close>

lemma read_loop_cycle:
  "ci < 4 \<Longrightarrow> read_loop limit bs ws ms ci res = Some (ws', ms', ci') \<Longrightarrow>
     ci' = (ci + length bs) mod 4"
proof (induction bs arbitrary: ws ms ci res)
  case Nil
  then show ?case by simp
next
  case (Cons b bs)
  show ?case
  proof (cases "ci + 1 = 4")
    case True
    with Cons.prems have "read_loop limit bs (ws @ [res OR push_bit (ci * 8) (ucast b)])
        (if length ws = ms then ms + BLOCK_SIZE else ms) 0 0 = Some (ws', ms', ci')"
      by (simp add: Let_def split: if_splits)
    from Cons.IH [OF _ this] True show ?thesis by simp
  next
    case False
    with Cons.prems have "read_loop limit bs ws
        (if length ws = ms then ms + BLOCK_SIZE else ms) (ci + 1)
        (res OR push_bit (ci * 8) (ucast b)) = Some (ws', ms', ci')"
      by (simp add: Let_def split: if_splits)
    moreover have "ci + 1 < 4" using False Cons.prems(1) by simp
    ultimately show ?thesis using Cons.IH by fastforce
  qed
qed

lemma read_loop_enough:
  "ci < 4 \<Longrightarrow> length ws + (ci + length bs) div 4 + BLOCK_SIZE \<le> limit \<Longrightarrow>
     read_loop limit bs ws ms ci res \<noteq> None"
proof (induction bs arbitrary: ws ms ci res)
  case Nil
  then show ?case by simp
next
  case (Cons b bs)
  have g: "\<not> (length ws = ms \<and> limit < ms + BLOCK_SIZE)"
    using Cons.prems(2) by auto
  show ?case
  proof (cases "ci + 1 = 4")
    case True
    have "length (ws @ [x]) + (0 + length bs) div 4 + BLOCK_SIZE \<le> limit" for x
      using Cons.prems(2) True by simp
    from Cons.IH [OF _ this] g True show ?thesis by (simp add: Let_def)
  next
    case False
    have "ci + 1 < 4" using False Cons.prems(1) by simp
    moreover have "length ws + (ci + 1 + length bs) div 4 + BLOCK_SIZE \<le> limit"
      using Cons.prems(2) by simp
    ultimately show ?thesis using Cons.IH g False by (simp add: Let_def)
  qed
qed

text \<open>
  An input whose length is not a multiple of 4 never gives a buffer: the loader returns
  \<^verbatim>\<open>NULL\<close> when an allocation fails, and otherwise its assertion fails. The allocations
  succeed when the allocator can provide one block more than the words of the input.
\<close>

lemma truncated_program_aborts:
  assumes "length program mod 4 \<noteq> 0"
  shows "(cpu_create_memory limit junk program cap = Inl ASSERTION_FAILED \<or>
          cpu_create_memory limit junk program cap = Inl RETURNS_NULL) \<and>
         (length program div 4 + BLOCK_SIZE \<le> limit \<longrightarrow>
            cpu_create_memory limit junk program cap = Inl ASSERTION_FAILED)"
proof -
  have a: "cpu_create_memory limit junk program cap = Inl ASSERTION_FAILED"
    if r: "read_loop limit program [] BLOCK_SIZE 0 0 = Some (ws, ms, ci)"
      and l: "BLOCK_SIZE \<le> limit" for ws ms ci
  proof -
    have "ci = (0 + length program) mod 4"
      by (rule read_loop_cycle [OF _ r]) simp
    with assms have "ci \<noteq> 0" by simp
    with r l show ?thesis by (simp add: cpu_create_memory_def)
  qed
  have 1: "cpu_create_memory limit junk program cap = Inl ASSERTION_FAILED \<or>
          cpu_create_memory limit junk program cap = Inl RETURNS_NULL"
  proof (cases "limit < BLOCK_SIZE")
    case True
    then show ?thesis by (simp add: cpu_create_memory_def)
  next
    case False
    show ?thesis
    proof (cases "read_loop limit program [] BLOCK_SIZE 0 0")
      case None
      then show ?thesis by (simp add: cpu_create_memory_def)
    next
      case (Some t)
      then show ?thesis using a [of "fst t" "fst (snd t)" "snd (snd t)"] False by simp
    qed
  qed
  have 2: "cpu_create_memory limit junk program cap = Inl ASSERTION_FAILED"
    if e: "length program div 4 + BLOCK_SIZE \<le> limit"
  proof -
    have "read_loop limit program [] BLOCK_SIZE 0 0 \<noteq> None"
      by (rule read_loop_enough) (use e in simp_all)
    then obtain ws ms ci where "read_loop limit program [] BLOCK_SIZE 0 0 = Some (ws, ms, ci)"
      by (metis not_None_eq prod_cases3)
    then show ?thesis using a e by simp
  qed
  from 1 2 show ?thesis by blast
qed

subsection \<open>Machines made by the loader are well formed\<close>

text \<open>
  Whenever the loader returns a buffer of fewer than \<open>2 ^ 31\<close> words for a stack of at
  least two words, the machine \<^verbatim>\<open>cpu_create\<close> makes of it satisfies \<open>wf_cpu\<close>.
\<close>

lemma grow_for_stack_enough:
  "grow_for_stack limit need ms = Some ms' \<Longrightarrow> need \<le> ms'"
proof (induction limit need ms rule: grow_for_stack.induct)
  case (1 limit need msize)
  then show ?case
    by (simp add: grow_for_stack.simps [of limit need msize] split: if_splits)
qed

lemma loaded_machine_wf:
  assumes ld: "cpu_create_memory limit junk program cap = Inr (m, sb)"
    and cap: "2 \<le> cap" and len: "length m < 2 ^ 31"
  shows "wf_cpu (cpu_create m sb cap inp)"
proof -
  from ld obtain ws ms0 ms where
    g: "grow_for_stack limit (length ws + cap) ms0 = Some ms"
    and le: "length ws * 4 \<le> ms"
    and m: "m = ws @ replicate ((ms - length ws * 4) div 4) 0 @
              map junk [length ws + (ms - length ws * 4) div 4 ..< ms]"
    and sb: "sb = ms - 1"
    by (auto simp add: cpu_create_memory_def Let_def split: if_splits option.splits prod.splits)
  from grow_for_stack_enough [OF g] have need: "length ws + cap \<le> ms" .
  have "length ws + (ms - length ws * 4) div 4 \<le> ms" using le by simp
  then have lm: "length m = ms" unfolding m by simp
  have e: "sint (word_of_int (int sb - int cap) :: int32) = int sb - int cap"
    using need cap len lm sb by (intro sint_of_int32) simp_all
  show ?thesis
    using need cap len lm sb e by (simp add: wf_cpu_def cpu_create_def)
qed

lemma read_loop_size:
  "read_loop limit bs ws ms ci res = Some (ws', ms', ci') \<Longrightarrow> ms \<le> ms'"
proof (induction bs arbitrary: ws ms ci res)
  case Nil
  then show ?case by simp
next
  case (Cons b bs)
  show ?case
  proof (cases "ci + 1 = 4")
    case True
    with Cons.prems have "read_loop limit bs (ws @ [res OR push_bit (ci * 8) (ucast b)])
        (if length ws = ms then ms + BLOCK_SIZE else ms) 0 0 = Some (ws', ms', ci')"
      by (simp add: Let_def split: if_splits)
    from Cons.IH [OF this] show ?thesis by (simp split: if_splits)
  next
    case False
    with Cons.prems have "read_loop limit bs ws
        (if length ws = ms then ms + BLOCK_SIZE else ms) (ci + 1)
        (res OR push_bit (ci * 8) (ucast b)) = Some (ws', ms', ci')"
      by (simp add: Let_def split: if_splits)
    from Cons.IH [OF this] show ?thesis by (simp split: if_splits)
  qed
qed

lemma grow_for_stack_size:
  "grow_for_stack limit need ms = Some ms' \<Longrightarrow> ms \<le> ms'"
proof (induction limit need ms rule: grow_for_stack.induct)
  case (1 limit need msize)
  then show ?case
    by (simp add: grow_for_stack.simps [of limit need msize] split: if_splits)
qed

text \<open>
  For every load that succeeds, whatever the program and the capacity, the word
  \<^verbatim>\<open>stack_bottom\<close> points to is in the buffer and was never written: it holds what the
  allocator left there.
\<close>

lemma loader_never_writes_bottom:
  assumes "cpu_create_memory limit junk program cap = Inr (m, sb)"
  shows "sb < length m \<and> m ! sb = junk sb"
proof -
  from assms obtain ws ms0 ci ms where
    r: "read_loop limit program [] BLOCK_SIZE 0 0 = Some (ws, ms0, ci)"
    and g: "grow_for_stack limit (length ws + cap) ms0 = Some ms"
    and le: "length ws * 4 \<le> ms"
    and m: "m = ws @ replicate ((ms - length ws * 4) div 4) 0 @
              map junk [length ws + (ms - length ws * 4) div 4 ..< ms]"
    and sb: "sb = ms - 1"
    by (auto simp add: cpu_create_memory_def Let_def split: if_splits option.splits prod.splits)
  from read_loop_size [OF r] grow_for_stack_size [OF g] have big: "1024 \<le> ms"
    by (simp add: BLOCK_SIZE_def)
  define a where "a = length ws + (ms - length ws * 4) div 4"
  have a: "a < ms - 1" "length ws \<le> a" using le big by (simp_all add: a_def)
  have m': "m = (ws @ replicate (a - length ws) 0) @ map junk [a ..< ms]"
    unfolding m a_def by simp
  have l: "length (ws @ replicate (a - length ws) 0) = a" using a by simp
  have "m ! (ms - 1) = map junk [a ..< ms] ! (ms - 1 - a)"
    unfolding m' using a l by (simp add: nth_append del: append_assoc)
  also have "\<dots> = junk (ms - 1)" using a by simp
  finally have "m ! sb = junk sb" by (simp add: sb)
  moreover have "length m = ms" unfolding m' using a by simp
  ultimately show ?thesis using big sb by simp
qed

subsection \<open>Evaluating the example programs\<close>

lemma run_loop_numeral:
  "run_loop sc (numeral k) c e =
     (case cpu_step sc c of
        None \<Rightarrow> None
      | Some (result, c1) \<Rightarrow>
          if status c1 = CPU_HALTED then Some (e + 1, 0, c1)
          else if result = 0 then Some (e, 1, c1)
          else run_loop sc (pred_numeral k) c1 (e + 1))"
  by (simp add: numeral_eq_Suc)

lemma steps_ok_numeral:
  "steps_ok sc (numeral k) c =
     (case cpu_step sc c of
        None \<Rightarrow> None
      | Some (result, c1) \<Rightarrow> if result = 1 then steps_ok sc (pred_numeral k) c1 else None)"
  by (simp add: numeral_eq_Suc)

lemmas exec_defs = cpu_step_def instructions_def execute_movr_def execute_add_def
  execute_halt_def execute_div_def div32_def is_valid_reg_def advance_def
  cpu_set_register_def reg_of_def Let_def

lemma sum_demo_run: "cpu_run no_input sum_demo 10 = Some (4, sum_final)"
  by (simp add: cpu_run_def run_loop_numeral sum_demo_def sum_final_def sum_demo_3_def
      exec_defs demo_defs fun_upd_twist)

lemma sum_demo_steps: "steps_ok no_input 3 sum_demo = Some sum_demo_3"
  by (simp add: steps_ok_numeral sum_demo_def sum_demo_3_def exec_defs demo_defs
      fun_upd_twist)

lemma div_demo_run: "cpu_run no_input div_demo 10 = Some (- 1, div_final)"
  by (simp add: cpu_run_def run_loop_numeral div_demo_def div_final_def
      exec_defs demo_defs)

text \<open>
  \<^verbatim>\<open>MOVR A, -2147483648; MOVR B, -1; DIV B; HALT\<close>: the two moves succeed and the division
  does not return.
\<close>

lemma overflow_demo_steps: "steps_ok no_input 2 overflow_demo = Some overflow_demo_2"
  by (simp add: steps_ok_numeral overflow_demo_def overflow_demo_2_def exec_defs demo_defs
      fun_upd_twist)

lemma overflow_demo_fetch:
  "fetches overflow_demo_2 0x05" "operand overflow_demo_2 1 = Some 1"
  "registers overflow_demo_2 REGISTER_A = 0x80000000"
  "registers overflow_demo_2 (reg_of 1) = 0xFFFFFFFF"
  by (simp_all add: overflow_demo_def overflow_demo_2_def demo_defs reg_of_def)

lemma overflow_demo_sint:
  "sint (0x80000000 :: int32) = - (2 ^ 31)" "sint (0xFFFFFFFF :: int32) = - 1"
  by simp_all

lemma overflow_demo_trap: "cpu_step no_input overflow_demo_2 = None"
  by (rule step_div(3) [OF overflow_demo_fetch(1,2)])
     (simp_all add: overflow_demo_fetch overflow_demo_sint word_sless_alt)

lemma overflow_demo_run: "cpu_run no_input overflow_demo 10 = None"
  by (simp add: cpu_run_def run_loop_numeral overflow_demo_def exec_defs demo_defs
      fun_upd_twist)

lemma overflow_demo_wf: "status overflow_demo = CPU_OK" "wf_cpu overflow_demo"
  by (simp_all add: wf_cpu_def overflow_demo_def demo_defs)

subsection \<open>C1: the value \<^verbatim>\<open>cpu_run\<close> returns\<close>

text \<open>
  Claim C1. A machine in status Ok runs with a budget \<open>n\<close> below \<open>2 ^ 63\<close>, so that the
  \<^verbatim>\<open>long long\<close> counters cannot overflow. Whatever \<^verbatim>\<open>cpu_run\<close> returns is a \<^verbatim>\<open>long long\<close>
  and one of three: all \<open>n\<close> steps succeeded, the status is Ok and the value is \<open>n\<close>; or
  \<open>k < n\<close> steps succeeded, the next one executed \<^verbatim>\<open>HALT\<close>, the status is Halted and the
  value is \<open>k + 1\<close>, the halting step counted; or \<open>k < n\<close> steps succeeded, the next one
  failed with an error status, and the value is \<open>- (k + 1)\<close>, the steps attempted with the
  failing one. On a well-formed machine \<^verbatim>\<open>cpu_run\<close> returns, unless after \<open>k < n\<close>
  successful steps the machine divides \<open>- 2 ^ 31\<close> by \<open>- 1\<close>: then it does not return.
\<close>

theorem cpu_run_count:
  assumes "status c = CPU_OK" and "n < 2 ^ 63"
  shows "(\<forall>ret c'. cpu_run sc c n = Some (ret, c') \<longrightarrow>
            - (2 ^ 63) < ret \<and> ret < 2 ^ 63 \<and>
            ((steps_ok sc n c = Some c' \<and> status c' = CPU_OK \<and> ret = int n) \<or>
             (\<exists>k c1. k < n \<and> steps_ok sc k c = Some c1 \<and> fetches c1 0x01 \<and>
                      cpu_step sc c1 = Some (0, c') \<and> status c' = CPU_HALTED \<and>
                      ret = int k + 1) \<or>
             (\<exists>k c1. k < n \<and> steps_ok sc k c = Some c1 \<and> cpu_step sc c1 = Some (0, c') \<and>
                      status c' \<noteq> CPU_OK \<and> status c' \<noteq> CPU_HALTED \<and>
                      ret = - (int k + 1)))) \<and>
         (wf_cpu c \<longrightarrow>
            (\<exists>ret c'. cpu_run sc c n = Some (ret, c')) \<or>
            (cpu_run sc c n = None \<and>
             (\<exists>k c1. k < n \<and> steps_ok sc k c = Some c1 \<and> div_traps c1)))"
proof (intro conjI allI impI)
  assume "wf_cpu c"
  from cpu_run_wf [OF this, of sc n]
  show "(\<exists>ret c'. cpu_run sc c n = Some (ret, c')) \<or>
        (cpu_run sc c n = None \<and>
         (\<exists>k c1. k < n \<and> steps_ok sc k c = Some c1 \<and> div_traps c1))"
    by blast
next
  fix ret c'
  assume run: "cpu_run sc c n = Some (ret, c')"
  with assms(1) obtain ex er where rl: "run_loop sc n c 0 = Some (ex, er, c')"
    and ret: "ret = (if 0 < er then - (er + ex) else ex)"
    by (auto simp add: cpu_run_def split: option.splits)
  from run_loop_outcome [OF assms(1) rl] ret
  have t: "(steps_ok sc n c = Some c' \<and> status c' = CPU_OK \<and> ret = int n) \<or>
            (\<exists>k c1. k < n \<and> steps_ok sc k c = Some c1 \<and> fetches c1 0x01 \<and>
                     cpu_step sc c1 = Some (0, c') \<and> status c' = CPU_HALTED \<and>
                     ret = int k + 1) \<or>
            (\<exists>k c1. k < n \<and> steps_ok sc k c = Some c1 \<and> cpu_step sc c1 = Some (0, c') \<and>
                     status c' \<noteq> CPU_OK \<and> status c' \<noteq> CPU_HALTED \<and>
                     ret = - (int k + 1))"
    by (elim disjE exE conjE)
       (simp, (rule disjI2, rule disjI1, force), (rule disjI2, rule disjI2, force))
  then show "(steps_ok sc n c = Some c' \<and> status c' = CPU_OK \<and> ret = int n) \<or>
            (\<exists>k c1. k < n \<and> steps_ok sc k c = Some c1 \<and> fetches c1 0x01 \<and>
                     cpu_step sc c1 = Some (0, c') \<and> status c' = CPU_HALTED \<and>
                     ret = int k + 1) \<or>
            (\<exists>k c1. k < n \<and> steps_ok sc k c = Some c1 \<and> cpu_step sc c1 = Some (0, c') \<and>
                     status c' \<noteq> CPU_OK \<and> status c' \<noteq> CPU_HALTED \<and>
                     ret = - (int k + 1))" .
  from assms(2) have nb: "int n < 2 ^ 63"
    by (metis of_nat_less_iff of_nat_numeral of_nat_power)
  from t have "- int n \<le> ret \<and> ret \<le> int n" by auto
  with nb show "- (2 ^ 63) < ret" and "ret < 2 ^ 63" by simp_all
qed

theorem cpu_run_count_witness:
  "status sum_demo = CPU_OK \<and> (10::nat) < 2 ^ 63 \<and> wf_cpu sum_demo \<and>
   cpu_run no_input sum_demo 10 = Some (4, sum_final) \<and>
   steps_ok no_input 3 sum_demo = Some sum_demo_3 \<and> fetches sum_demo_3 0x01 \<and>
   cpu_step no_input sum_demo_3 = Some (0, sum_final) \<and> status sum_final = CPU_HALTED \<and>
   status div_demo = CPU_OK \<and> cpu_run no_input div_demo 10 = Some (- 1, div_final) \<and>
   cpu_step no_input div_demo = Some (0, div_final) \<and> status div_final = CPU_DIV_BY_ZERO \<and>
   status overflow_demo = CPU_OK \<and> wf_cpu overflow_demo \<and>
   cpu_run no_input overflow_demo 10 = None \<and>
   steps_ok no_input 2 overflow_demo = Some overflow_demo_2 \<and> div_traps overflow_demo_2"
proof -
  have s: "status sum_demo = CPU_OK" "status div_demo = CPU_OK"
    "status sum_final = CPU_HALTED" "status div_final = CPU_DIV_BY_ZERO"
    by (simp_all add: sum_demo_def div_demo_def sum_final_def sum_demo_3_def div_final_def
        demo_defs)
  have n: "(10::nat) < 2 ^ 63" by simp
  have w: "wf_cpu sum_demo"
    by (simp add: wf_cpu_def sum_demo_def demo_defs)
  from cpu_run_count [OF s(1) n, of no_input] sum_demo_run s(3)
  obtain k c1 where k: "steps_ok no_input k sum_demo = Some c1" "fetches c1 0x01"
    "cpu_step no_input c1 = Some (0, sum_final)" "4 = int k + 1"
    by auto
  from k(4) have "k = 3" by simp
  with k have a: "fetches sum_demo_3 0x01" "cpu_step no_input sum_demo_3 = Some (0, sum_final)"
    by (simp_all add: sum_demo_steps)
  from cpu_run_count [OF s(2) n, of no_input] div_demo_run s(4)
  obtain j c2 where j: "steps_ok no_input j div_demo = Some c2"
    "cpu_step no_input c2 = Some (0, div_final)" "- 1 = - (int j + 1)"
    by auto
  from j(3) have "j = 0" by simp
  with j have b: "cpu_step no_input div_demo = Some (0, div_final)" by simp
  have d: "div_traps overflow_demo_2"
    by (simp add: div_traps_def overflow_demo_fetch overflow_demo_sint word_sless_alt)
  from s n w a b d overflow_demo_wf show ?thesis
    by (simp add: sum_demo_run sum_demo_steps div_demo_run overflow_demo_run
        overflow_demo_steps)
qed

subsection \<open>C2: advancing past the operands and validating the register\<close>

text \<open>
  Claim C2 says that every instruction with a register operand, \<^verbatim>\<open>IN\<close> included,
  advances the instruction pointer before it validates the register index. \<^verbatim>\<open>execute_in\<close>
  does the opposite: with the invalid index 7 as operand the step fails with
  IllegalOperand and the pointer still is at the \<^verbatim>\<open>IN\<close> opcode, not one word further.
\<close>

theorem in_validates_first_counterexample:
  "fetches bad_in 0x0C \<and> operand bad_in 1 = Some 7 \<and> 4 <s (7::int32) \<and>
   cpu_step no_input bad_in = Some (0, bad_in\<lparr>status := CPU_ILLEGAL_OPERAND\<rparr>) \<and>
   inst_index (bad_in\<lparr>status := CPU_ILLEGAL_OPERAND\<rparr>) = inst_index bad_in \<and>
   inst_index bad_in \<noteq> inst_index bad_in + 1"
proof -
  have f: "fetches bad_in 0x0C" by (simp add: bad_in_def demo_defs)
  have o: "operand bad_in 1 = Some 7" by (simp add: bad_in_def demo_defs)
  have v: "(7::int32) <s 0 \<or> 4 <s (7::int32)" by (simp add: word_sless_alt)
  show ?thesis
    using f o v step_in_bad_register [OF f o v, of no_input] by (simp add: word_sless_alt)
qed

text \<open>
  Claim C2, amended. A machine in status Ok fetches the opcode \<open>w\<close>, and \<open>r\<close> is the word
  after it. For \<^verbatim>\<open>ADD\<close>, \<^verbatim>\<open>SUB\<close>, \<^verbatim>\<open>MUL\<close>, \<^verbatim>\<open>DIV\<close>, \<^verbatim>\<open>INC\<close>, \<^verbatim>\<open>DEC\<close>, \<^verbatim>\<open>GET\<close>, \<^verbatim>\<open>OUT\<close>, \<^verbatim>\<open>PUT\<close>,
  \<^verbatim>\<open>PUSH\<close> and \<^verbatim>\<open>POP\<close> an invalid \<open>r\<close> makes the step fail with IllegalOperand and the
  pointer advanced by one; for \<^verbatim>\<open>MOVR\<close>, \<^verbatim>\<open>LOAD\<close>, \<^verbatim>\<open>STORE\<close>, \<^verbatim>\<open>SWAP\<close> and \<^verbatim>\<open>CMP\<close> it is
  advanced by two, also when only the second register of \<^verbatim>\<open>SWAP\<close> or \<^verbatim>\<open>CMP\<close> is invalid.
  Nothing else changes. \<^verbatim>\<open>IN\<close> is the exception: it validates first, and the failing
  step changes the status only.
\<close>

theorem advance_before_validation:
  assumes "fetches c w" and "operand c 1 = Some r"
  shows "((r <s 0 \<or> 4 <s r) \<and>
            w \<in> {0x02, 0x03, 0x04, 0x05, 0x06, 0x07, 0x0D, 0x0E, 0x0F, 0x11, 0x12} \<longrightarrow>
          cpu_step sc c =
            Some (0, c\<lparr>inst_index := inst_index c + 1, status := CPU_ILLEGAL_OPERAND\<rparr>)) \<and>
         (operand c 2 = Some x \<and> (r <s 0 \<or> 4 <s r) \<and> w \<in> {0x09, 0x0A, 0x0B, 0x10, 19} \<longrightarrow>
          cpu_step sc c =
            Some (0, c\<lparr>inst_index := inst_index c + 2, status := CPU_ILLEGAL_OPERAND\<rparr>)) \<and>
         (operand c 2 = Some x \<and> \<not> (r <s 0 \<or> 4 <s r) \<and> (x <s 0 \<or> 4 <s x) \<and>
            w \<in> {0x10, 19} \<longrightarrow>
          cpu_step sc c =
            Some (0, c\<lparr>inst_index := inst_index c + 2, status := CPU_ILLEGAL_OPERAND\<rparr>)) \<and>
         ((r <s 0 \<or> 4 <s r) \<and> w = 0x0C \<longrightarrow>
          cpu_step sc c = Some (0, c\<lparr>status := CPU_ILLEGAL_OPERAND\<rparr>))"
  using step_bad_register_1 [OF assms, of sc] step_bad_register_2 [OF assms, of x sc]
    step_bad_second_register [OF assms, of x sc] step_in_bad_register [OF _ assms(2), of sc]
    assms(1)
  by blast

theorem advance_before_validation_witness:
  "cpu_step no_input bad_add =
     Some (0, bad_add\<lparr>inst_index := 1, status := CPU_ILLEGAL_OPERAND\<rparr>) \<and>
   cpu_step no_input bad_movr =
     Some (0, bad_movr\<lparr>inst_index := 2, status := CPU_ILLEGAL_OPERAND\<rparr>) \<and>
   cpu_step no_input bad_swap =
     Some (0, bad_swap\<lparr>inst_index := 2, status := CPU_ILLEGAL_OPERAND\<rparr>) \<and>
   cpu_step no_input bad_in = Some (0, bad_in\<lparr>status := CPU_ILLEGAL_OPERAND\<rparr>)"
proof -
  have f: "fetches bad_add 0x02" "fetches bad_movr 0x09" "fetches bad_swap 0x10"
    "fetches bad_in 0x0C"
    by (simp_all add: bad_add_def bad_movr_def bad_swap_def bad_in_def demo_defs)
  have o1: "operand bad_add 1 = Some 7" "operand bad_movr 1 = Some 7"
    "operand bad_swap 1 = Some 1" "operand bad_in 1 = Some 7"
    by (simp_all add: bad_add_def bad_movr_def bad_swap_def bad_in_def demo_defs)
  have o2: "operand bad_movr 2 = Some 1" "operand bad_swap 2 = Some 9"
    by (simp_all add: bad_add_def bad_movr_def bad_swap_def bad_in_def demo_defs)
  have v: "4 <s (7::int32)" "4 <s (9::int32)" "\<not> ((1::int32) <s 0 \<or> 4 <s (1::int32))"
    by (simp_all add: word_sless_alt)
  have i: "inst_index bad_add = 0" "inst_index bad_movr = 0" "inst_index bad_swap = 0"
    by (simp_all add: bad_add_def bad_movr_def bad_swap_def demo_defs)
  show ?thesis
    using advance_before_validation [OF f(1) o1(1), where sc = no_input]
      advance_before_validation [OF f(2) o1(2), where x = 1 and sc = no_input]
      advance_before_validation [OF f(3) o1(3), where x = 9 and sc = no_input]
      advance_before_validation [OF f(4) o1(4), where sc = no_input]
      o2 v i
    by simp
qed

subsection \<open>C3: memory after a load and after a reset\<close>

text \<open>
  Claim C3 says that after a load every word beyond the program, and so the stack
  region, holds zero, and that a reset zeroes the whole stack region. The code at this
  input: the empty program with a stack of four words, on an allocator that leaves
  \<^verbatim>\<open>0xAA\<close> in the buffer. The loader returns a buffer of 1024 words whose last word, the
  one \<^verbatim>\<open>stack_bottom\<close> points to, still holds \<^verbatim>\<open>0xAA\<close>: its \<^verbatim>\<open>memset\<close> is given
  \<^verbatim>\<open>memory_size - memory_index * 4\<close> bytes and stops at word 256. \<^verbatim>\<open>cpu_reset\<close> on the
  machine created from it succeeds and leaves that word as it is.
\<close>

theorem loader_leaves_stack_unset:
  "cpu_create_memory 1024 junk_demo [] 4 = Inr (memory loaded_demo, stack_bottom loaded_demo) \<and>
   mem_read (memory loaded_demo) (stack_addr loaded_demo 0) = Some 0xAA \<and>
   cpu_reset loaded_demo = Some loaded_reset \<and>
   mem_read (memory loaded_reset) (stack_addr loaded_reset 0) = Some 0xAA"
proof -
  have 1: "cpu_create_memory 1024 junk_demo [] 4 =
             Inr (memory loaded_demo, stack_bottom loaded_demo)"
    by (simp add: load_empty loaded_demo_def cpu_create_def del: upt_rec_numeral)
  have 2: "mem_read (memory loaded_demo) (stack_addr loaded_demo 0) = Some 0xAA"
    by (simp add: loaded_demo_def cpu_create_def mem_read_def stack_addr_def nth_append
        junk_demo_def del: upt_rec_numeral)
  have 3: "cpu_reset loaded_demo = Some loaded_reset"
    by (simp add: cpu_reset_def zero_words_def loaded_reset_def del: upt_rec_numeral)
       (simp add: loaded_demo_def cpu_create_def del: upt_rec_numeral)
  have 4: "mem_read (memory loaded_reset) (stack_addr loaded_reset 0) = Some 0xAA"
    by (simp add: loaded_reset_def loaded_demo_def cpu_create_def mem_read_def stack_addr_def
        nth_append junk_demo_def del: upt_rec_numeral)
  from 1 2 3 4 show ?thesis by simp
qed

subsection \<open>C4: input whose length is not a multiple of 4\<close>

text \<open>
  Claim C4. The loader is to fail on an input whose length is not a multiple of 4 by
  returning \<^verbatim>\<open>NULL\<close>, as it does when an allocation fails: with an allocator that
  provides no block, the one-byte input gives \<^verbatim>\<open>NULL\<close>. With an allocator that provides
  the block, the reading loop ends with \<^verbatim>\<open>cycle_index = 1\<close> and no word stored, the
  branch of the loop that frees the buffer and returns \<^verbatim>\<open>NULL\<close> is never taken, and the
  loader does not return: its own assertion \<^verbatim>\<open>cycle_index == 0\<close> fails. It is so for every
  such input whose allocations succeed (\<open>truncated_program_aborts\<close>).
\<close>

theorem truncated_input_fails_assertion:
  "length [1::byte] mod 4 = 1 \<and>
   cpu_create_memory 0 junk_demo [1] 4 = Inl RETURNS_NULL \<and>
   read_loop 1024 [1] [] BLOCK_SIZE 0 0 = Some ([], 1024, 1) \<and>
   cpu_create_memory 1024 junk_demo [1] 4 = Inl ASSERTION_FAILED"
  by (simp add: cpu_create_memory_def BLOCK_SIZE_def)

subsection \<open>C5: where a jump lands\<close>

text \<open>
  Claim C5. A machine in status Ok fetches a jump with target \<open>addr\<close>: \<^verbatim>\<open>LOOP\<close> (8) with
  register C not zero, \<^verbatim>\<open>JMP\<close> (20), \<^verbatim>\<open>JZ\<close> (21), \<^verbatim>\<open>JNZ\<close> (22) or \<^verbatim>\<open>JGT\<close> (23) with the
  Result register zero, not zero or positive, \<^verbatim>\<open>CALL\<close> (0x18) with room on the stack, or
  \<^verbatim>\<open>RET\<close> (0x19) with \<open>addr\<close> on top of a stack that is not empty. Then the step succeeds
  and the machine it returns, after the handler and the increment of \<^verbatim>\<open>cpu_step\<close>, has
  its instruction pointer at \<open>addr\<close>: this is where the next fetch reads. The three
  conjuncts give the whole machine: the plain jumps change the pointer only, \<^verbatim>\<open>CALL\<close>
  also writes the return address in the next free slot, and \<^verbatim>\<open>RET\<close> also zeroes the slot
  it pops.
\<close>

theorem jump_lands_on_addr:
  assumes "fetches c w"
  shows "(operand c 1 = Some addr \<and>
            (w = 0x08 \<and> registers c REGISTER_C \<noteq> 0 \<or> w = 20 \<or>
             w = 21 \<and> registers c REGISTER_RESULT = 0 \<or>
             w = 22 \<and> registers c REGISTER_RESULT \<noteq> 0 \<or>
             w = 23 \<and> 0 <s registers c REGISTER_RESULT) \<longrightarrow>
          cpu_step sc c = Some (1, c\<lparr>inst_index := addr\<rparr>)) \<and>
         (w = 0x18 \<and> operand c 1 = Some addr \<and> operand c 2 = Some ret \<and>
            \<not> word_of_nat (stack_capacity c) \<le>s stack_size c \<and>
            in_buffer c (stack_addr c (- stack_size c)) \<longrightarrow>
          cpu_step sc c =
            Some (1, c\<lparr>memory := (memory c)[nat (stack_addr c (- stack_size c)) := ret],
                       stack_size := stack_size c + 1, inst_index := addr\<rparr>)) \<and>
         (w = 0x19 \<and> stack_size c \<noteq> 0 \<and>
            mem_read (memory c) (stack_addr c (- (stack_size c - 1))) = Some addr \<longrightarrow>
          cpu_step sc c =
            Some (1, c\<lparr>memory := (memory c)[nat (stack_addr c (- (stack_size c - 1))) := 0],
                       inst_index := addr, stack_size := stack_size c - 1\<rparr>))"
  using assms step_branch [of c w addr sc] step_call [of c addr ret sc] step_ret [of c addr sc]
  by blast

theorem jump_lands_on_addr_witness:
  "fetches jmp_demo 20 \<and> cpu_step no_input jmp_demo = Some (1, jmp_demo\<lparr>inst_index := 3\<rparr>) \<and>
   fetches call_demo 0x18 \<and>
   cpu_step no_input call_demo = Some (1, call_demo_1) \<and> inst_index call_demo_1 = 4 \<and>
   fetches call_demo_1 0x19 \<and>
   cpu_step no_input call_demo_1 = Some (1, call_demo_2) \<and> inst_index call_demo_2 = 2"
proof -
  have f: "fetches jmp_demo 20" "fetches call_demo 0x18" "fetches call_demo_1 0x19"
    by (simp_all add: jmp_demo_def call_demo_def call_demo_1_def demo_defs nth_append)
  have o: "operand jmp_demo 1 = Some 3" "operand call_demo 1 = Some 4"
    "operand call_demo 2 = Some 2"
    by (simp_all add: jmp_demo_def call_demo_def demo_defs)
  have s: "\<not> word_of_nat (stack_capacity call_demo) \<le>s stack_size call_demo"
    "in_buffer call_demo (stack_addr call_demo (- stack_size call_demo))"
    "stack_size call_demo_1 \<noteq> 0"
    "mem_read (memory call_demo_1) (stack_addr call_demo_1 (- (stack_size call_demo_1 - 1)))
       = Some 2"
    by (simp_all add: call_demo_def call_demo_1_def demo_defs)
  have e1: "call_demo\<lparr>memory :=
               (memory call_demo)[nat (stack_addr call_demo (- stack_size call_demo)) := 2],
             stack_size := stack_size call_demo + 1, inst_index := 4\<rparr> = call_demo_1"
    by (simp add: call_demo_def call_demo_1_def demo_defs)
  have e2: "call_demo_1\<lparr>memory :=
               (memory call_demo_1)
                 [nat (stack_addr call_demo_1 (- (stack_size call_demo_1 - 1))) := 0],
             inst_index := 2, stack_size := stack_size call_demo_1 - 1\<rparr> = call_demo_2"
    by (simp add: call_demo_def call_demo_1_def call_demo_2_def demo_defs)
  show ?thesis
    using f jump_lands_on_addr [OF f(1), where addr = 3 and sc = no_input] o
      jump_lands_on_addr [OF f(2), where addr = 4 and sc = no_input and ret = 2]
      jump_lands_on_addr [OF f(3), where addr = 2 and sc = no_input] s e1 e2
    by (simp add: call_demo_1_def call_demo_2_def)
qed

subsection \<open>C6: division\<close>

text \<open>
  Claim C6. \<^verbatim>\<open>DIV r\<close> with a valid register that holds 0 is to fail with DivisionByZero and
  leave A unchanged, and otherwise A is to become the truncated quotient, mirrored in
  Result. The program \<^verbatim>\<open>MOVR A, -2147483648; MOVR B, -1; DIV B; HALT\<close> reaches, after two
  successful steps, a machine in status Ok that fetches \<^verbatim>\<open>DIV\<close> with the valid register B
  as operand. B holds \<open>- 1\<close>, not 0, and A holds \<open>- 2 ^ 31\<close>: the quotient \<open>2 ^ 31\<close> is no
  32-bit value, the division \<^verbatim>\<open>registers[REGISTER_A] /= registers[reg_to_div]\<close> is
  undefined, and neither \<^verbatim>\<open>cpu_step\<close> nor \<^verbatim>\<open>cpu_run\<close> returns. On every other machine \<^verbatim>\<open>DIV\<close>
  does what the claim says (\<open>step_div\<close>).
\<close>

theorem div_overflow_traps:
  "steps_ok no_input 2 overflow_demo = Some overflow_demo_2 \<and>
   status overflow_demo_2 = CPU_OK \<and> fetches overflow_demo_2 0x05 \<and>
   operand overflow_demo_2 1 = Some 1 \<and> is_valid_reg overflow_demo_2 1 = (True, overflow_demo_2) \<and>
   sint (registers overflow_demo_2 REGISTER_A) = - (2 ^ 31) \<and>
   sint (registers overflow_demo_2 REGISTER_B) = - 1 \<and>
   sint (registers overflow_demo_2 REGISTER_A) sdiv sint (registers overflow_demo_2 REGISTER_B) =
     2 ^ 31 \<and>
   div32 (registers overflow_demo_2 REGISTER_A) (registers overflow_demo_2 REGISTER_B) = None \<and>
   execute_div overflow_demo_2 = None \<and>
   cpu_step no_input overflow_demo_2 = None \<and>
   cpu_run no_input overflow_demo 10 = None"
proof -
  have r: "registers overflow_demo_2 REGISTER_A = 0x80000000"
    "registers overflow_demo_2 REGISTER_B = 0xFFFFFFFF"
    by (simp_all add: overflow_demo_2_def)
  have e: "execute_div overflow_demo_2 = None"
    by (simp add: overflow_demo_def overflow_demo_2_def exec_defs demo_defs)
  have s: "status overflow_demo_2 = CPU_OK"
    "is_valid_reg overflow_demo_2 1 = (True, overflow_demo_2)"
    by (simp_all add: overflow_demo_def overflow_demo_2_def is_valid_reg_def demo_defs)
  have q: "(- (2 ^ 31) :: int) sdiv (- 1) = 2 ^ 31"
    by (simp add: signed_divide_int_def)
  show ?thesis
    by (simp add: overflow_demo_steps overflow_demo_fetch overflow_demo_trap
        overflow_demo_run r e s q div32_def)
qed

subsection \<open>C7: what \<^verbatim>\<open>cpu_reset\<close> changes\<close>

text \<open>
  Claim C7 says that \<^verbatim>\<open>cpu_reset\<close> zeroes all words of the stack region and leaves the
  code untouched. The code at two inputs. After \<^verbatim>\<open>PUSH A\<close> with 7 in A, a reset gives
  stack size 0 and leaves the 7 in the slot at \<^verbatim>\<open>stack_bottom\<close>. On a machine whose
  program fills the buffer up to the four slots of the stack, a reset overwrites the
  last word of the program (the \<^verbatim>\<open>HALT\<close> at index 1, which is \<^verbatim>\<open>end_of_stack\<close>, the last
  index \<^verbatim>\<open>cpu_step\<close> accepts for the instruction pointer) with zero.
\<close>

theorem reset_misses_bottom_slot:
  "cpu_step no_input push_demo = Some (1, pushed_demo) \<and>
   cpu_reset pushed_demo = Some reset_demo \<and>
   stack_size reset_demo = 0 \<and>
   mem_read (memory reset_demo) (stack_addr reset_demo 0) = Some 7 \<and>
   end_of_stack full_demo = 1 \<and> mem_read (memory full_demo) 1 = Some 1 \<and>
   cpu_reset full_demo = Some full_reset \<and>
   mem_read (memory full_reset) 1 = Some 0"
  by (simp add: push_demo_step reset_demo_eval full_demo_reset)
     (simp add: reset_demo_def pushed_demo_def push_demo_def full_demo_def full_reset_def
        demo_defs nth_append)

subsection \<open>C8: a call and the return from it\<close>

text \<open>
  Claim C8 says that \<^verbatim>\<open>RET\<close> after \<^verbatim>\<open>CALL\<close> brings the instruction pointer to the word
  after the call and its two operands. The return address is the second operand of
  \<^verbatim>\<open>CALL\<close>, whatever it holds: \<open>call_demo\<close> calls from index 0 with return address 2, and
  the return leaves the pointer at 2, not at 3.
\<close>

theorem call_ret_counterexample:
  "fetches call_demo 0x18 \<and> \<not> word_of_nat (stack_capacity call_demo) \<le>s stack_size call_demo \<and>
   cpu_step no_input call_demo = Some (1, call_demo_1) \<and>
   fetches call_demo_1 0x19 \<and>
   cpu_step no_input call_demo_1 = Some (1, call_demo_2) \<and>
   inst_index call_demo_2 = 2 \<and> inst_index call_demo + 3 = 3 \<and>
   inst_index call_demo_2 \<noteq> inst_index call_demo + 3"
  by (simp add: call_demo_steps)
     (simp add: call_demo_def call_demo_1_def call_demo_2_def demo_defs nth_append)


text \<open>
  Claim C8, amended. A machine in status Ok fetches \<^verbatim>\<open>CALL addr, retaddr\<close> with a stack
  that is not full (its size is not negative and the next slot lies in the buffer).
  The step succeeds, the pointer is at \<open>addr\<close>, the stack is one larger and \<open>retaddr\<close>
  is on top. Whenever a machine with that stack size and \<open>retaddr\<close> on top fetches
  \<^verbatim>\<open>RET\<close>, the step succeeds, the pointer is at \<open>retaddr\<close> and the stack size is the one
  before the call. The pointer is after the call exactly when the program gave
  \<open>retaddr\<close> that value.
\<close>

theorem call_then_ret:
  assumes "fetches c 0x18" and "operand c 1 = Some addr" and "operand c 2 = Some retaddr"
    and "0 \<le>s stack_size c" and "\<not> word_of_nat (stack_capacity c) \<le>s stack_size c"
    and "in_buffer c (stack_addr c (- stack_size c))"
  shows "\<exists>c1. cpu_step sc c = Some (1, c1) \<and> inst_index c1 = addr \<and>
           stack_size c1 = stack_size c + 1 \<and>
           mem_read (memory c1) (stack_addr c1 (- (stack_size c1 - 1))) = Some retaddr \<and>
           (\<forall>c2. fetches c2 0x19 \<and> stack_size c2 = stack_size c1 \<and>
                  mem_read (memory c2) (stack_addr c2 (- (stack_size c2 - 1))) = Some retaddr \<longrightarrow>
              (\<exists>c3. cpu_step sc c2 = Some (1, c3) \<and> inst_index c3 = retaddr \<and>
                     stack_size c3 = stack_size c))"
proof -
  let ?c1 = "c\<lparr>memory := (memory c)[nat (stack_addr c (- stack_size c)) := retaddr],
                stack_size := stack_size c + 1, inst_index := addr\<rparr>"
  have s1: "cpu_step sc c = Some (1, ?c1)"
    by (rule step_call [OF assms(1,2,3,5,6)])
  have rd: "mem_read (memory ?c1) (stack_addr ?c1 (- (stack_size ?c1 - 1))) = Some retaddr"
    using assms(6) by (auto simp add: mem_read_def in_buffer_def stack_addr_def)
  have ret: "\<exists>c3. cpu_step sc c2 = Some (1, c3) \<and> inst_index c3 = retaddr \<and>
                     stack_size c3 = stack_size c"
    if f2: "fetches c2 0x19" and sz: "stack_size c2 = stack_size ?c1"
      and top: "mem_read (memory c2) (stack_addr c2 (- (stack_size c2 - 1))) = Some retaddr"
    for c2
  proof -
    have ne: "stack_size c2 \<noteq> 0" using sz succ_not_zero [OF assms(4)] by simp
    have "stack_size c2 - 1 = stack_size c" using sz by simp
    then show ?thesis
      unfolding step_ret [OF f2 ne top, of sc] by simp
  qed
  show ?thesis
  proof (rule exI [of _ ?c1], intro conjI allI impI)
    show "cpu_step sc c = Some (1, ?c1)" by (rule s1)
    show "inst_index ?c1 = addr" by simp
    show "stack_size ?c1 = stack_size c + 1" by simp
    show "mem_read (memory ?c1) (stack_addr ?c1 (- (stack_size ?c1 - 1))) = Some retaddr"
      by (rule rd)
    fix c2
    assume "fetches c2 0x19 \<and> stack_size c2 = stack_size ?c1 \<and>
              mem_read (memory c2) (stack_addr c2 (- (stack_size c2 - 1))) = Some retaddr"
    then show "\<exists>c3. cpu_step sc c2 = Some (1, c3) \<and> inst_index c3 = retaddr \<and>
                     stack_size c3 = stack_size c"
      using ret by blast
  qed
qed

theorem call_then_ret_witness:
  "fetches call_demo 0x18 \<and> operand call_demo 1 = Some 4 \<and> operand call_demo 2 = Some 2 \<and>
   0 \<le>s stack_size call_demo \<and>
   \<not> word_of_nat (stack_capacity call_demo) \<le>s stack_size call_demo \<and>
   in_buffer call_demo (stack_addr call_demo (- stack_size call_demo)) \<and>
   (\<exists>c3. cpu_step no_input call_demo_1 = Some (1, c3) \<and> inst_index c3 = 2 \<and>
          stack_size c3 = stack_size call_demo)"
proof -
  have f: "fetches call_demo 0x18" "fetches call_demo_1 0x19"
    by (simp_all add: call_demo_def call_demo_1_def demo_defs nth_append)
  have o: "operand call_demo 1 = Some 4" "operand call_demo 2 = Some 2"
    by (simp_all add: call_demo_def demo_defs)
  have s: "0 \<le>s stack_size call_demo"
    "\<not> word_of_nat (stack_capacity call_demo) \<le>s stack_size call_demo"
    "in_buffer call_demo (stack_addr call_demo (- stack_size call_demo))"
    by (simp_all add: call_demo_def demo_defs)
  obtain c1 where c1: "cpu_step no_input call_demo = Some (1, c1)"
    and r: "\<forall>c2. fetches c2 0x19 \<and> stack_size c2 = stack_size c1 \<and>
                  mem_read (memory c2) (stack_addr c2 (- (stack_size c2 - 1))) = Some 2 \<longrightarrow>
              (\<exists>c3. cpu_step no_input c2 = Some (1, c3) \<and> inst_index c3 = 2 \<and>
                     stack_size c3 = stack_size call_demo)"
    and t: "mem_read (memory c1) (stack_addr c1 (- (stack_size c1 - 1))) = Some 2"
    using call_then_ret [OF f(1) o s, of no_input] by blast
  from c1 have e: "c1 = call_demo_1" by (simp add: call_demo_steps)
  have "\<exists>c3. cpu_step no_input call_demo_1 = Some (1, c3) \<and> inst_index c3 = 2 \<and>
          stack_size c3 = stack_size call_demo"
    using r [rule_format, of call_demo_1] f(2) t e by simp
  then show ?thesis using f o s by simp
qed

subsection \<open>C9: a machine that is not in status Ok\<close>

text \<open>
  Claim C9. When the status is anything but Ok (Halted or an error), \<^verbatim>\<open>cpu_step\<close> returns
  0 and \<^verbatim>\<open>cpu_run\<close> returns 0 for every budget, and both leave the whole machine as it
  was: memory, registers, instruction pointer, stack size, status and streams. Only
  \<^verbatim>\<open>cpu_reset\<close>, which sets the status to Ok whenever it returns, lets the machine run
  again.
\<close>

theorem non_ok_inert:
  "status c \<noteq> CPU_OK \<Longrightarrow>
     cpu_step sc c = Some (0, c) \<and> cpu_run sc c n = Some (0, c) \<and>
     (\<forall>c1. cpu_reset c = Some c1 \<longrightarrow> status c1 = CPU_OK)"
  by (auto simp add: cpu_step_def cpu_run_def cpu_reset_def split: option.splits)

theorem non_ok_inert_witness:
  "status sum_final \<noteq> CPU_OK \<and>
   cpu_step no_input sum_final = Some (0, sum_final) \<and>
   cpu_run no_input sum_final 5 = Some (0, sum_final) \<and>
   cpu_reset sum_final = Some (sum_final\<lparr>registers := (\<lambda>_. 0), status := CPU_OK\<rparr>) \<and>
   status (sum_final\<lparr>registers := (\<lambda>_. 0), status := CPU_OK\<rparr>) = CPU_OK"
proof -
  have s: "status sum_final \<noteq> CPU_OK"
    by (simp add: sum_final_def)
  have z: "replicate 3 0 @ replicate 4 0 @ [0] = replicate 8 (0::int32)"
    by (simp add: numeral_eq_Suc)
  have r: "cpu_reset sum_final = Some (sum_final\<lparr>registers := (\<lambda>_. 0), status := CPU_OK\<rparr>)"
    by (simp add: cpu_reset_def zero_words_def sum_final_def sum_demo_3_def sum_demo_def
        demo_defs z)
  from non_ok_inert [OF s, of no_input 5] s r show ?thesis by simp
qed

subsection \<open>C10: the free slots of the stack\<close>

text \<open>
  Claim C10 says that in every state reachable from a created or reset machine the
  slots of the stack from \<^verbatim>\<open>stack_size\<close> upwards hold zero. Every step keeps this
  (\<open>cpu_step_wf\<close>, \<open>cpu_run_wf\<close>), but neither \<^verbatim>\<open>cpu_reset\<close> nor the loader establishes it.
  The code at two inputs: after \<^verbatim>\<open>PUSH A\<close> with 7 in A and a reset, the stack is empty
  and its first slot holds 7; the machine created from what the loader returns for the
  empty program has, on an allocator that leaves \<^verbatim>\<open>0xAA\<close>, an empty stack whose slots
  hold \<^verbatim>\<open>0xAA\<close>.
\<close>

theorem free_slots_not_zero:
  "cpu_reset pushed_demo = Some reset_demo \<and> wf_cpu reset_demo \<and>
   status reset_demo = CPU_OK \<and> stack_size reset_demo = 0 \<and>
   \<not> free_slots_zero reset_demo \<and>
   cpu_create_memory 1024 junk_demo [] 4 = Inr (memory loaded_demo, stack_bottom loaded_demo) \<and>
   wf_cpu loaded_demo \<and> \<not> free_slots_zero loaded_demo"
proof -
  have 1: "wf_cpu reset_demo" "status reset_demo = CPU_OK" "stack_size reset_demo = 0"
    by (simp_all add: wf_cpu_def reset_demo_def pushed_demo_def push_demo_def demo_defs)
  have 2: "\<not> free_slots_zero reset_demo"
    by (auto simp add: free_slots_zero_def list_all_iff reset_demo_def pushed_demo_def
        push_demo_def demo_defs intro!: bexI [of _ 0])
  have 3: "wf_cpu loaded_demo"
    by (simp add: wf_cpu_def loaded_demo_def cpu_create_def del: upt_rec_numeral)
  have 4: "\<not> free_slots_zero loaded_demo"
    by (auto simp add: free_slots_zero_def list_all_iff loaded_demo_def cpu_create_def
        mem_read_def nth_append junk_demo_def simp del: upt_rec_numeral intro!: bexI [of _ 0])
  have 5: "cpu_create_memory 1024 junk_demo [] 4 =
             Inr (memory loaded_demo, stack_bottom loaded_demo)"
    by (simp add: load_empty loaded_demo_def cpu_create_def del: upt_rec_numeral)
  from 1 2 3 4 5 reset_demo_eval show ?thesis by simp
qed

end
